theory Spec2Isabelle
  imports Main "HOL-Library.Sublist" "HOL-Library.Char_ord" "HOL-Library.List_Lexorder"
begin

section \<open>Python strings\<close>

text \<open>
  A Python \<open>str\<close> is modelled as a \<open>string\<close>: one \<open>char\<close> per code point, for the code
  points below 256. \<open>len\<close> is \<open>length\<close>, read as an unbounded Python \<open>int\<close>.
\<close>

abbreviation TAB :: char where "TAB \<equiv> CHR 0x09"
abbreviation NL :: char where "NL \<equiv> CHR 0x0A"
abbreviation CR :: char where "CR \<equiv> CHR 0x0D"
abbreviation SP :: char where "SP \<equiv> CHR 0x20"
abbreviation HYPHEN :: char where "HYPHEN \<equiv> CHR 0x2D"

definition len :: "'a list \<Rightarrow> int" where
  "len s = int (length s)"

text \<open>\<open>str.isspace\<close> of one character: the code points below 256 that Python counts as
  whitespace (\<open>str.strip()\<close>, \<open>str.split()\<close> and \<open>str.isspace()\<close> use this class).\<close>

definition isspace :: "char \<Rightarrow> bool" where
  "isspace c = ((of_char c :: nat) \<in> set [9, 10, 11, 12, 13, 28, 29, 30, 31, 32, 133, 160])"

definition lstrip :: "string \<Rightarrow> string" where
  "lstrip s = dropWhile isspace s"

definition rstrip :: "string \<Rightarrow> string" where
  "rstrip s = rev (dropWhile isspace (rev s))"

definition strip :: "string \<Rightarrow> string" where
  "strip s = lstrip (rstrip s)"

text \<open>\<open>sep.join(parts)\<close>.\<close>

fun join :: "string \<Rightarrow> string list \<Rightarrow> string" where
  "join sep [] = []"
| "join sep [p] = p"
| "join sep (p # q # ps) = p @ sep @ join sep (q # ps)"

text \<open>\<open>text.split(sep)\<close> for a non-empty separator: the pieces between the occurrences of
  \<open>sep\<close>, found from left to right without overlap. \<open>split_acc sep cur s\<close> carries the piece
  read so far.\<close>

function split_acc :: "string \<Rightarrow> string \<Rightarrow> string \<Rightarrow> string list" where
  "split_acc sep cur [] = [cur]"
| "split_acc sep cur (c # cs) =
     (if sep \<noteq> [] \<and> prefix sep (c # cs)
      then cur # split_acc sep [] (drop (length sep) (c # cs))
      else split_acc sep (cur @ [c]) cs)"
  by pat_completeness auto
termination
  by (relation "measure (\<lambda>(sep, cur, s). length s)") auto

definition split_on :: "string \<Rightarrow> string \<Rightarrow> string list" where
  "split_on sep s = split_acc sep [] s"

text \<open>\<open>text.split()\<close> without a separator: the maximal runs of non-whitespace characters.\<close>

fun split_ws_acc :: "string \<Rightarrow> string \<Rightarrow> string list" where
  "split_ws_acc cur [] = (if cur = [] then [] else [cur])"
| "split_ws_acc cur (c # cs) =
     (if isspace c then (if cur = [] then split_ws_acc [] cs else cur # split_ws_acc [] cs)
      else split_ws_acc (cur @ [c]) cs)"

definition split_ws :: "string \<Rightarrow> string list" where
  "split_ws s = split_ws_acc [] s"

text \<open>\<open>text.expandtabs(tabsize)\<close>: a tab becomes spaces up to the next tab stop; the column
  restarts after a line feed or a carriage return.\<close>

fun expandtabs_from :: "int \<Rightarrow> int \<Rightarrow> string \<Rightarrow> string" where
  "expandtabs_from ts col [] = []"
| "expandtabs_from ts col (c # cs) =
     (if c = TAB then
        (if ts > 0 then
           (let incr = ts - col mod ts
            in replicate (nat incr) SP @ expandtabs_from ts (col + incr) cs)
         else expandtabs_from ts col cs)
      else c # expandtabs_from ts (if c = NL \<or> c = CR then 0 else col + 1) cs)"

definition expandtabs :: "int \<Rightarrow> string \<Rightarrow> string" where
  "expandtabs ts s = expandtabs_from ts 0 s"

text \<open>Slices \<open>s[:e]\<close> and \<open>s[e:]\<close>; a negative \<open>e\<close> counts from the end.\<close>

definition slice_to :: "'a list \<Rightarrow> int \<Rightarrow> 'a list" where
  "slice_to s e = (if e < 0 then take (nat (len s + e)) s else take (nat e) s)"

definition slice_from :: "'a list \<Rightarrow> int \<Rightarrow> 'a list" where
  "slice_from s e = (if e < 0 then drop (nat (len s + e)) s else drop (nat e) s)"

text \<open>\<open>s.rfind(c, 0, e)\<close> for one character \<open>c\<close>: the highest index below \<open>e\<close> that holds
  \<open>c\<close>, or \<open>-1\<close>.\<close>

fun rfind_rev :: "char \<Rightarrow> string \<Rightarrow> int" where
  "rfind_rev c [] = -1"
| "rfind_rev c (d # ds) = (if d = c then len ds else rfind_rev c ds)"

definition rfind :: "string \<Rightarrow> char \<Rightarrow> int \<Rightarrow> int" where
  "rfind s c e = rfind_rev c (rev (slice_to s e))"

datatype py_error =
    ValueError | TypeError | FileNotFoundError | NotADirectoryError
  | PermissionError | UnicodeDecodeError | OSError

section \<open>The standard library module \<open>textwrap\<close>\<close>

text \<open>
  \<open>formatter.py\<close> delegates to \<open>textwrap\<close> of the Python standard library (CPython 3.11,
  \<open>Lib/textwrap.py\<close>). The library is not part of the repository; its functions are
  embedded here from the library's code, each under the library's own name.
\<close>

record TextWrapper =
  width :: int
  initial_indent :: string
  subsequent_indent :: string
  expand_tabs :: bool
  replace_whitespace :: bool
  fix_sentence_endings :: bool
  break_long_words :: bool
  drop_whitespace :: bool
  break_on_hyphens :: bool
  tabsize :: int
  max_lines :: "int option"
  placeholder :: string

text \<open>\<open>_whitespace = '\t\n\x0b\x0c\r '\<close>, the class the wrapper splits on.\<close>

definition is_ws :: "char \<Rightarrow> bool" where
  "is_ws c = ((of_char c :: nat) \<in> set [9, 10, 11, 12, 13, 32])"

text \<open>The regular-expression classes \<open>\w\<close>, \<open>\d\<close>, \<open>letter = [^\d\W]\<close> and
  \<open>word_punct = [\w!"'&.,?]\<close> on the code points below 256.\<close>

definition is_word :: "char \<Rightarrow> bool" where
  "is_word c = (let n = (of_char c :: nat) in
     (48 \<le> n \<and> n \<le> 57) \<or> (65 \<le> n \<and> n \<le> 90) \<or> n = 95 \<or> (97 \<le> n \<and> n \<le> 122)
     \<or> n \<in> set [170, 178, 179, 181, 185, 186, 188, 189, 190]
     \<or> (192 \<le> n \<and> n \<le> 214) \<or> (216 \<le> n \<and> n \<le> 246) \<or> 248 \<le> n)"

definition is_digit :: "char \<Rightarrow> bool" where
  "is_digit c = (let n = (of_char c :: nat) in 48 \<le> n \<and> n \<le> 57)"

definition is_letter :: "char \<Rightarrow> bool" where
  "is_letter c = (is_word c \<and> \<not> is_digit c)"

definition is_word_punct :: "char \<Rightarrow> bool" where
  "is_word_punct c = (is_word c \<or> c \<in> set ''!\"'&.,?'')"

text \<open>\<open>_munge_whitespace\<close>.\<close>

definition munge_whitespace :: "TextWrapper \<Rightarrow> string \<Rightarrow> string" where
  "munge_whitespace w text =
     (let text1 = (if expand_tabs w then expandtabs (tabsize w) text else text)
      in if replace_whitespace w then map (\<lambda>c. if is_ws c then SP else c) text1 else text1)"

text \<open>\<open>wordsep_simple_re.split\<close> with the empty pieces removed: the pattern is
  \<open>([\t\n\x0b\x0c\r ]+)\<close>, so the chunks are the maximal runs of whitespace and of
  non-whitespace, in order.\<close>

fun wordsep_simple_split :: "string \<Rightarrow> string list" where
  "wordsep_simple_split [] = []"
| "wordsep_simple_split (c # cs) =
     (case wordsep_simple_split cs of
        (d # r) # rs \<Rightarrow> if is_ws c = is_ws d then (c # d # r) # rs else [c] # (d # r) # rs
      | rs \<Rightarrow> [c] # rs)"

text \<open>
  \<open>wordsep_re\<close>, matched at one position. \<open>behind\<close> is the text in front of the position,
  reversed (the look-behinds read it); the other argument is the text from the position on.

  \<open>hyphens_then_word s\<close> is the look-ahead \<open>-{2,}\w\<close>; it gives the number of hyphens.
\<close>

definition hyphens_then_word :: "string \<Rightarrow> nat option" where
  "hyphens_then_word s =
     (let k = length (takeWhile (\<lambda>c. c = HYPHEN) s)
      in if 2 \<le> k \<and> (case drop k s of [] \<Rightarrow> False | c # _ \<Rightarrow> is_word c) then Some k else None)"

text \<open>The look-behinds \<open>(?<=letter{2}-)\<close> and \<open>(?<=letter-letter-)\<close>, read just after a hyphen;
  \<open>prev\<close> is the reversed text in front of that hyphen.\<close>

definition hyphen_lookbehind :: "string \<Rightarrow> bool" where
  "hyphen_lookbehind prev =
     (case prev of
        a # b # rest \<Rightarrow>
          (is_letter a \<and> is_letter b)
          \<or> (is_letter a \<and> b = HYPHEN \<and> (case rest of [] \<Rightarrow> False | c # _ \<Rightarrow> is_letter c))
      | _ \<Rightarrow> False)"

text \<open>The look-ahead \<open>(?=letter -? letter)\<close>.\<close>

definition hyphen_lookahead :: "string \<Rightarrow> bool" where
  "hyphen_lookahead s =
     (case s of
        a # b # rest \<Rightarrow>
          is_letter a \<and> (is_letter b \<or> (b = HYPHEN \<and> (case rest of [] \<Rightarrow> False | c # _ \<Rightarrow> is_letter c)))
      | _ \<Rightarrow> False)"

text \<open>The third alternative, \<open>[^ws]+?\<close> followed by a hyphenation point, the end of the word
  or an em-dash. \<open>word_match prev s\<close> is called with at least one character of the word
  already read (the head of \<open>prev\<close>) and gives the number of further characters the match
  takes: the reluctant \<open>+?\<close> stops at the first position where one of the three tails
  matches.\<close>

fun word_match :: "string \<Rightarrow> string \<Rightarrow> nat" where
  "word_match prev [] = 0"
| "word_match prev (c # cs) =
     (if c = HYPHEN \<and> hyphen_lookbehind prev \<and> hyphen_lookahead cs then 1
      else if is_ws c then 0
      else if (case prev of [] \<Rightarrow> False | p # _ \<Rightarrow> is_word_punct p)
              \<and> hyphens_then_word (c # cs) \<noteq> None then 0
      else Suc (word_match (c # prev) cs))"

text \<open>The length of the match of \<open>wordsep_re\<close> at a position whose text \<open>c # cs\<close> is not
  empty: whitespace, an em-dash between words, or a word.\<close>

definition wordsep_match :: "string \<Rightarrow> char \<Rightarrow> string \<Rightarrow> nat" where
  "wordsep_match behind c cs =
     (if is_ws c then length (takeWhile is_ws (c # cs))
      else case (if (case behind of [] \<Rightarrow> False | p # _ \<Rightarrow> is_word_punct p)
                 then hyphens_then_word (c # cs) else None) of
             Some k \<Rightarrow> k
           | None \<Rightarrow> Suc (word_match (c # behind) cs))"

lemma wordsep_match_pos: "0 < wordsep_match behind c cs"
  by (auto simp: wordsep_match_def hyphens_then_word_def Let_def split: option.splits if_splits)

text \<open>\<open>wordsep_re.split\<close> with the empty pieces removed. The pattern matches at every
  position of a non-empty text (a word always ends, at whitespace or at the end of the
  text), so the pieces are the successive matches.\<close>

function wordsep_split_from :: "string \<Rightarrow> string \<Rightarrow> string list" where
  "wordsep_split_from behind [] = []"
| "wordsep_split_from behind (c # cs) =
     (let n = wordsep_match behind c cs
      in take n (c # cs) # wordsep_split_from (rev (take n (c # cs)) @ behind) (drop n (c # cs)))"
  by pat_completeness auto
termination
proof (relation "measure (\<lambda>(behind, s). length s)")
  show "wf (measure (\<lambda>(behind, s). length s))" by simp
next
  fix behind :: string and c :: char and cs :: string and n :: nat
  assume "n = wordsep_match behind c cs"
  then have "0 < n" by (simp add: wordsep_match_pos)
  then show "((rev (take n (c # cs)) @ behind, drop n (c # cs)), (behind, c # cs))
             \<in> measure (\<lambda>(behind, s). length s)"
    by simp
qed

definition wordsep_split :: "string \<Rightarrow> string list" where
  "wordsep_split text = wordsep_split_from [] text"

text \<open>\<open>_split\<close> and \<open>_split_chunks\<close>.\<close>

definition split_chunks :: "TextWrapper \<Rightarrow> string \<Rightarrow> string list" where
  "split_chunks w text =
     (let text1 = munge_whitespace w text
      in filter (\<lambda>c. c \<noteq> [])
           (if break_on_hyphens w then wordsep_split text1 else wordsep_simple_split text1))"

text \<open>\<open>sentence_end_re.search(chunk)\<close>: the chunk ends in a lowercase ASCII letter, one of
  \<open>. ! ?\<close> and an optional quote.\<close>

definition sentence_end :: "string \<Rightarrow> bool" where
  "sentence_end chunk =
     (let lower = (\<lambda>c. 97 \<le> (of_char c :: nat) \<and> (of_char c :: nat) \<le> 122);
          punct = (\<lambda>c. c \<in> set ''.!?'');
          quote = (\<lambda>c. c \<in> set ''\"''  \<or> c = CHR 0x27)
      in case rev chunk of
           a # b # rest \<Rightarrow>
             (punct a \<and> lower b)
             \<or> (quote a \<and> punct b \<and> (case rest of [] \<Rightarrow> False | c # _ \<Rightarrow> lower c))
         | _ \<Rightarrow> False)"

text \<open>\<open>_fix_sentence_endings\<close>: the loop over \<open>i\<close> steps by two after a change and by one
  otherwise.\<close>

fun fix_sentence_endings_chunks :: "string list \<Rightarrow> string list" where
  "fix_sentence_endings_chunks (a # b # cs) =
     (if b = '' '' \<and> sentence_end a then a # ''  '' # fix_sentence_endings_chunks cs
      else a # fix_sentence_endings_chunks (b # cs))"
| "fix_sentence_endings_chunks cs = cs"

text \<open>
  \<open>_wrap_chunks\<close> reverses the chunk list and pops from its end; here the list stays in
  reading order and its head is the top of that stack. \<open>cur_line\<close> is in reading order too.

  \<open>_handle_long_word\<close> gives the new chunk stack and the new current line.
\<close>

definition handle_long_word ::
  "TextWrapper \<Rightarrow> string list \<Rightarrow> string list \<Rightarrow> int \<Rightarrow> int \<Rightarrow> string list \<times> string list" where
  "handle_long_word w chunks cur_line cur_len wd =
     (case chunks of
        [] \<Rightarrow> (chunks, cur_line)
      | chunk # rest \<Rightarrow>
          (let space_left = (if wd < 1 then 1 else wd - cur_len)
           in if break_long_words w then
                (let hyphen = rfind chunk HYPHEN space_left;
                     end = (if break_on_hyphens w \<and> len chunk > space_left
                               \<and> hyphen > 0 \<and> (\<exists>c \<in> set (slice_to chunk hyphen). c \<noteq> HYPHEN)
                            then hyphen + 1 else space_left)
                 in (slice_from chunk end # rest, cur_line @ [slice_to chunk end]))
              else if cur_line = [] then (rest, [chunk])
              else (chunks, cur_line)))"

text \<open>The inner loop of \<open>_wrap_chunks\<close> that moves chunks onto the current line while they
  fit.\<close>

fun take_fitting :: "int \<Rightarrow> string list \<Rightarrow> string list \<Rightarrow> int \<Rightarrow> string list \<times> string list \<times> int" where
  "take_fitting wd [] cur_line cur_len = ([], cur_line, cur_len)"
| "take_fitting wd (c # cs) cur_line cur_len =
     (if cur_len + len c \<le> wd then take_fitting wd cs (cur_line @ [c]) (cur_len + len c)
      else (c # cs, cur_line, cur_len))"

text \<open>The truncation loop of \<open>_wrap_chunks\<close> (\<open>while cur_line: ... else: ...\<close>) on the reversed
  current line: \<open>Some\<close> the line with the placeholder when the loop breaks, \<open>None\<close> when it
  runs out and its \<open>else\<close> branch is taken.\<close>

fun place_placeholder :: "string \<Rightarrow> int \<Rightarrow> string list \<Rightarrow> int \<Rightarrow> string list option" where
  "place_placeholder ph wd [] cur_len = None"
| "place_placeholder ph wd (c # rcs) cur_len =
     (if strip c \<noteq> [] \<and> cur_len + len ph \<le> wd then Some (rev (c # rcs) @ [ph])
      else place_placeholder ph wd rcs (cur_len - len c))"

text \<open>
  One pass of the outer \<open>while chunks:\<close> loop, entered with a non-empty chunk stack, in two
  parts. \<open>current_line\<close> is the part that collects the current line: the chunks that fit, a
  chunk that is too long for any line, and the removal of a whitespace chunk at the end of
  the line. It gives the chunk stack, the current line and \<open>cur_len\<close>.
\<close>

definition current_line ::
  "TextWrapper \<Rightarrow> int \<Rightarrow> string list \<Rightarrow> string list \<times> string list \<times> int" where
  "current_line w wd chunks1 =
     (let (chunks2, cur_line2, cur_len2) = take_fitting wd chunks1 [] 0;
          long = (chunks2 \<noteq> [] \<and> len (hd chunks2) > wd);
          (chunks3, cur_line3) =
             (if long then handle_long_word w chunks2 cur_line2 cur_len2 wd
              else (chunks2, cur_line2));
          cur_len3 = (if long then sum_list (map len cur_line3) else cur_len2);
          dropit = (drop_whitespace w \<and> cur_line3 \<noteq> [] \<and> strip (last cur_line3) = [])
      in (chunks3,
          if dropit then butlast cur_line3 else cur_line3,
          if dropit then cur_len3 - len (last cur_line3) else cur_len3))"

text \<open>The static string that prefixes the line of a pass, and the chunk stack after a
  whitespace chunk at the start of a line other than the first was dropped.\<close>

definition pass_indent :: "TextWrapper \<Rightarrow> string list \<Rightarrow> string" where
  "pass_indent w lines = (if lines \<noteq> [] then subsequent_indent w else initial_indent w)"

definition pass_chunks :: "TextWrapper \<Rightarrow> string list \<Rightarrow> string list \<Rightarrow> string list" where
  "pass_chunks w chunks lines =
     (if drop_whitespace w \<and> strip (hd chunks) = [] \<and> lines \<noteq> [] then tl chunks else chunks)"

text \<open>The whole pass. The result says whether the loop was left by \<open>break\<close>, and gives the
  chunk stack and the lines after the pass.\<close>

definition wrap_pass ::
  "TextWrapper \<Rightarrow> string list \<Rightarrow> string list \<Rightarrow> bool \<times> string list \<times> string list" where
  "wrap_pass w chunks lines =
     (let indent = pass_indent w lines;
          wd = width w - len indent;
          (chunks3, cur_line4, cur_len4) = current_line w wd (pass_chunks w chunks lines)
      in if cur_line4 = [] then (False, chunks3, lines)
         else if (case max_lines w of
                    None \<Rightarrow> True
                  | Some m \<Rightarrow>
                      len lines + 1 < m
                      \<or> ((chunks3 = []
                           \<or> (drop_whitespace w \<and> length chunks3 = 1 \<and> strip (hd chunks3) = []))
                          \<and> cur_len4 \<le> wd))
         then (False, chunks3, lines @ [indent @ concat cur_line4])
         else (case place_placeholder (placeholder w) wd (rev cur_line4) cur_len4 of
                 Some cur_line5 \<Rightarrow> (True, chunks3, lines @ [indent @ concat cur_line5])
               | None \<Rightarrow>
                   if lines \<noteq> [] \<and> len (rstrip (last lines)) + len (placeholder w) \<le> width w
                   then (True, chunks3, butlast lines @ [rstrip (last lines) @ placeholder w])
                   else (True, chunks3, lines @ [indent @ lstrip (placeholder w)])))"

text \<open>The outer loop. It need not end: with an indent longer than the width and
  \<open>break_long_words\<close> set, a pass can leave the chunk stack and the lines as they were, so
  the loop is a partial function and \<open>None\<close> stands for a call that never returns.\<close>

partial_function (option) wrap_loop ::
  "TextWrapper \<Rightarrow> string list \<Rightarrow> string list \<Rightarrow> string list option" where
  "wrap_loop w chunks lines =
     (if chunks = [] then Some lines
      else case wrap_pass w chunks lines of
             (left_by_break, chunks', lines') \<Rightarrow>
               if left_by_break then Some lines' else wrap_loop w chunks' lines')"

declare wrap_loop.simps [code]

text \<open>\<open>_wrap_chunks\<close>: the two checks that raise \<open>ValueError\<close>, then the loop.\<close>

definition wrap_chunks :: "TextWrapper \<Rightarrow> string list \<Rightarrow> (py_error + string list) option" where
  "wrap_chunks w chunks =
     (if width w \<le> 0 then Some (Inl ValueError)
      else if (case max_lines w of
                 None \<Rightarrow> False
               | Some m \<Rightarrow>
                   len (if m > 1 then subsequent_indent w else initial_indent w)
                     + len (lstrip (placeholder w)) > width w)
      then Some (Inl ValueError)
      else map_option Inr (wrap_loop w chunks []))"

text \<open>\<open>TextWrapper.wrap\<close> and \<open>TextWrapper.fill\<close>.\<close>

definition text_chunks :: "TextWrapper \<Rightarrow> string \<Rightarrow> string list" where
  "text_chunks w text =
     (let chunks = split_chunks w text
      in if fix_sentence_endings w then fix_sentence_endings_chunks chunks else chunks)"

definition TextWrapper_wrap :: "TextWrapper \<Rightarrow> string \<Rightarrow> (py_error + string list) option" where
  "TextWrapper_wrap w text = wrap_chunks w (text_chunks w text)"

definition TextWrapper_fill :: "TextWrapper \<Rightarrow> string \<Rightarrow> (py_error + string) option" where
  "TextWrapper_fill w text = map_option (map_sum id (join [NL])) (TextWrapper_wrap w text)"

text \<open>The constructor \<open>TextWrapper(...)\<close> with the library's defaults.\<close>

definition TextWrapper_default :: TextWrapper where
  "TextWrapper_default =
     \<lparr>width = 70, initial_indent = [], subsequent_indent = [], expand_tabs = True,
      replace_whitespace = True, fix_sentence_endings = False, break_long_words = True,
      drop_whitespace = True, break_on_hyphens = True, tabsize = 8, max_lines = None,
      placeholder = '' [...]''\<rparr>"

text \<open>\<open>textwrap.shorten(text, width, placeholder=...)\<close>: the wrapper it constructs, and the
  call of \<open>fill\<close> on the text with its whitespace collapsed.\<close>

definition shorten_wrapper :: "int \<Rightarrow> string \<Rightarrow> TextWrapper" where
  "shorten_wrapper W P = TextWrapper_default\<lparr>width := W, max_lines := Some 1, placeholder := P\<rparr>"

definition textwrap_shorten :: "string \<Rightarrow> int \<Rightarrow> string \<Rightarrow> (py_error + string) option" where
  "textwrap_shorten text wd ph =
     TextWrapper_fill (shorten_wrapper wd ph) (join '' '' (split_ws (strip text)))"

text \<open>
  \<open>textwrap.dedent\<close>. Its three regular expressions work line by line (\<open>^\<close> and \<open>$\<close> in
  multi-line mode match next to line feeds only), so the text is treated as its lines.

  \<open>_whitespace_only_re = '^[ \t]+$'\<close> is replaced by the empty string: a line of spaces and
  tabs becomes empty.
\<close>

definition sp_tab :: "char \<Rightarrow> bool" where
  "sp_tab c = (c = SP \<or> c = TAB)"

definition blank_line :: "string \<Rightarrow> string" where
  "blank_line l = (if l \<noteq> [] \<and> (\<forall>c \<in> set l. sp_tab c) then [] else l)"

text \<open>\<open>_leading_whitespace_re = '(^[ \t]*)(?:[^ \t\n])'\<close>, \<open>findall\<close>: the leading spaces and
  tabs of every line that has another character.\<close>

definition leading_whitespace :: "string list \<Rightarrow> string list" where
  "leading_whitespace ls = map (takeWhile sp_tab) (filter (\<lambda>l. dropWhile sp_tab l \<noteq> []) ls)"

text \<open>The innermost loop \<open>for i, (x, y) in enumerate(zip(margin, indent))\<close>: the margin is cut
  at the first position where the two differ, and stays as it is when there is none.\<close>

fun cut_margin :: "string \<Rightarrow> string \<Rightarrow> string" where
  "cut_margin (x # xs) (y # ys) = (if x \<noteq> y then [] else x # cut_margin xs ys)"
| "cut_margin xs [] = xs"
| "cut_margin [] ys = []"

text \<open>One round of \<open>for indent in indents\<close>; \<open>None\<close> is Python's \<open>margin = None\<close>.\<close>

definition margin_step :: "string \<Rightarrow> string option \<Rightarrow> string option" where
  "margin_step indent margin =
     (case margin of
        None \<Rightarrow> Some indent
      | Some m \<Rightarrow>
          if prefix m indent then Some m
          else if prefix indent m then Some indent
          else Some (cut_margin m indent))"

text \<open>\<open>re.sub(r'(?m)^' + margin, '', text)\<close> on one line: the margin is removed where the line
  starts with it.\<close>

definition strip_margin :: "string \<Rightarrow> string \<Rightarrow> string" where
  "strip_margin m l = (if prefix m l then drop (length m) l else l)"

definition textwrap_dedent :: "string \<Rightarrow> string" where
  "textwrap_dedent text =
     (let ls = map blank_line (split_on [NL] text);
          margin = fold margin_step (leading_whitespace ls) None
      in case margin of
           None \<Rightarrow> join [NL] ls
         | Some m \<Rightarrow> if m \<noteq> [] then join [NL] (map (strip_margin m) ls) else join [NL] ls)"

section \<open>\<open>formatter.py\<close>: the class \<open>TextFormatter\<close>\<close>

record TextFormatter =
  wrapper :: TextWrapper

text \<open>\<open>TextFormatter.__init__\<close>; the arguments it does not pass keep the library's defaults.\<close>

definition TextFormatter_init ::
  "int \<Rightarrow> string \<Rightarrow> string \<Rightarrow> bool \<Rightarrow> bool \<Rightarrow> bool \<Rightarrow> bool \<Rightarrow> bool \<Rightarrow> TextFormatter" where
  "TextFormatter_init wd ii si et rw fse blw boh =
     \<lparr>wrapper = TextWrapper_default\<lparr>width := wd, initial_indent := ii, subsequent_indent := si,
        expand_tabs := et, replace_whitespace := rw, fix_sentence_endings := fse,
        break_long_words := blw, break_on_hyphens := boh\<rparr>\<rparr>"

definition wrap :: "TextFormatter \<Rightarrow> string \<Rightarrow> (py_error + string list) option" where
  "wrap f text = (if strip text = [] then Some (Inr []) else TextWrapper_wrap (wrapper f) text)"

definition fill :: "TextFormatter \<Rightarrow> string \<Rightarrow> (py_error + string) option" where
  "fill f text = (if strip text = [] then Some (Inr []) else TextWrapper_fill (wrapper f) text)"

definition dedent_text :: "TextFormatter \<Rightarrow> string \<Rightarrow> string" where
  "dedent_text f text = textwrap_dedent text"

definition shorten :: "TextFormatter \<Rightarrow> string \<Rightarrow> int \<Rightarrow> string \<Rightarrow> (py_error + string) option" where
  "shorten f text wd ph = textwrap_shorten text wd ph"

definition format_with_prefix :: "TextFormatter \<Rightarrow> string \<Rightarrow> string \<Rightarrow> (py_error + string) option" where
  "format_with_prefix f text pfx =
     fill (TextFormatter_init (width (wrapper f)) pfx pfx (expand_tabs (wrapper f))
             (replace_whitespace (wrapper f)) False (break_long_words (wrapper f))
             (break_on_hyphens (wrapper f)))
          text"

text \<open>The loop of \<open>format_paragraphs\<close> over the paragraphs; the first call of \<open>fill\<close> that raises
  or does not return ends it.\<close>

fun format_paragraph_list :: "TextFormatter \<Rightarrow> string list \<Rightarrow> (py_error + string list) option" where
  "format_paragraph_list f [] = Some (Inr [])"
| "format_paragraph_list f (para # paras) =
     (if strip para \<noteq> [] then
        (case fill f (strip para) of
           None \<Rightarrow> None
         | Some (Inl e) \<Rightarrow> Some (Inl e)
         | Some (Inr formatted_para) \<Rightarrow>
             map_option (map_sum id (\<lambda>fps. formatted_para # fps)) (format_paragraph_list f paras))
      else map_option (map_sum id (\<lambda>fps. [] # fps)) (format_paragraph_list f paras))"

definition format_paragraphs :: "TextFormatter \<Rightarrow> string \<Rightarrow> (py_error + string) option" where
  "format_paragraphs f text =
     map_option (map_sum id (join [NL, NL])) (format_paragraph_list f (split_on [NL, NL] text))"

section \<open>The file system and \<open>pathlib\<close>\<close>

text \<open>
  \<open>pathlib.Path\<close> on POSIX: a root (\<open>''\<close>, \<open>/\<close> or \<open>//\<close>) and the components that are neither
  empty nor \<open>.\<close>, as \<open>parse_parts\<close> of the standard library computes them.
\<close>

record Path =
  root :: string
  parts :: "string list"

definition Path_init :: "string \<Rightarrow> Path" where
  "Path_init s =
     \<lparr>root = (if take 2 s = ''//'' \<and> take 3 s \<noteq> ''///'' then ''//''
              else if take 1 s = ''/'' then ''/'' else []),
      parts = filter (\<lambda>x. x \<noteq> [] \<and> x \<noteq> ''.'') (split_on ''/'' s)\<rparr>"

definition Path_str :: "Path \<Rightarrow> string" where
  "Path_str p = (if root p = [] \<and> parts p = [] then ''.'' else root p @ join ''/'' (parts p))"

text \<open>\<open>p / s\<close>, \<open>p.parent\<close>, \<open>p.name\<close>, \<open>p.suffix\<close> and \<open>p.stem\<close>.\<close>

definition Path_child :: "Path \<Rightarrow> string \<Rightarrow> Path" where
  "Path_child p s =
     (let q = Path_init s in if root q \<noteq> [] then q else p\<lparr>parts := parts p @ parts q\<rparr>)"

definition Path_parent :: "Path \<Rightarrow> Path" where
  "Path_parent p = p\<lparr>parts := butlast (parts p)\<rparr>"

definition Path_name :: "Path \<Rightarrow> string" where
  "Path_name p = (if parts p = [] then [] else last (parts p))"

definition Path_suffix :: "Path \<Rightarrow> string" where
  "Path_suffix p =
     (let name = Path_name p; i = rfind name CHR ''.'' (len name)
      in if 0 < i \<and> i < len name - 1 then slice_from name i else [])"

definition Path_stem :: "Path \<Rightarrow> string" where
  "Path_stem p =
     (let name = Path_name p; i = rfind name CHR ''.'' (len name)
      in if 0 < i \<and> i < len name - 1 then slice_to name i else name)"

text \<open>
  What a path leads to. A regular file carries whether it may be opened for reading and its
  content as text; \<open>None\<close> says that its bytes are not valid under the handler's encoding.
\<close>

datatype node =
    Regular (may_read: bool) (decoded: "string option")
  | Directory
  | Special

text \<open>Messages on the two output streams. The wording of the program's messages plays no
  part in what is proved, so a message is its kind and its arguments.\<close>

datatype message =
    Usage_error
  | No_text_files string
  | Search_error string py_error
  | Found_files int
  | Processing string
  | Processing_error string py_error
  | Traceback py_error
  | Header string
  | Content string
  | Saved string
  | Interrupted
  | Processed_count int int

text \<open>
  The world the program runs in: what each path string leads to, the entry names the
  operating system lists for a directory, the paths where creating a directory or writing
  fails, the index of the loop pass during which the user interrupts the program, what has
  been printed so far, and the writes that have succeeded so far, each with its path and
  the text written (a write shows in the modification time of the file even when the text
  is the one the file held before).
\<close>

record world =
  files :: "string \<Rightarrow> node option"
  scandir :: "string \<Rightarrow> string list"
  mkdir_failure :: "string \<Rightarrow> py_error option"
  write_failure :: "string \<Rightarrow> py_error option"
  sigint_at :: "nat option"
  stdout :: "message list"
  stderr :: "message list"
  written :: "(string \<times> string) list"

text \<open>Reading in text mode translates \<open>\r\n\<close> and \<open>\r\<close> to \<open>\n\<close> (universal newlines).\<close>

fun universal_newlines :: "string \<Rightarrow> string" where
  "universal_newlines [] = []"
| "universal_newlines [c] = [if c = CR then NL else c]"
| "universal_newlines (c # d # cs) =
     (if c = CR \<and> d = NL then NL # universal_newlines cs
      else if c = CR then NL # universal_newlines (d # cs)
      else c # universal_newlines (d # cs))"

text \<open>\<open>mkdir(parents=True, exist_ok=True)\<close> when it succeeds: the path and its missing
  ancestors become directories.\<close>

fun mkdir_parents :: "Path \<Rightarrow> nat \<Rightarrow> (string \<Rightarrow> node option) \<Rightarrow> (string \<Rightarrow> node option)" where
  "mkdir_parents p 0 fs = fs"
| "mkdir_parents p (Suc n) fs =
     (let d = Path_str (p\<lparr>parts := take (Suc n) (parts p)\<rparr>)
      in mkdir_parents p n (if fs d = None then fs(d \<mapsto> Directory) else fs))"

section \<open>\<open>file_handler.py\<close>: the class \<open>FileHandler\<close>\<close>

record FileHandler =
  encoding :: string

text \<open>
  \<open>read_file\<close>. The handler for a decoding failure calls \<open>UnicodeDecodeError\<close> with one
  argument; the constructor takes five, so the call itself raises \<open>TypeError\<close> and that is
  what leaves the function.
\<close>

definition read_file :: "FileHandler \<Rightarrow> world \<Rightarrow> string \<Rightarrow> py_error + string" where
  "read_file h w file_path =
     (case files w (Path_str (Path_init file_path)) of
        None \<Rightarrow> Inl FileNotFoundError
      | Some (Regular readable content) \<Rightarrow>
          if \<not> readable then Inl PermissionError
          else (case content of
                  None \<Rightarrow> Inl TypeError
                | Some text \<Rightarrow> Inr (universal_newlines text))
      | Some _ \<Rightarrow> Inl ValueError)"

text \<open>\<open>write_file\<close>: a \<open>PermissionError\<close> is raised again as such, any other failure of the
  operating system as \<open>OSError\<close>.\<close>

definition write_file :: "FileHandler \<Rightarrow> world \<Rightarrow> string \<Rightarrow> string \<Rightarrow> py_error + world" where
  "write_file h w file_path content =
     (let path = Path_init file_path
      in case write_failure w (Path_str path) of
           Some PermissionError \<Rightarrow> Inl PermissionError
         | Some _ \<Rightarrow> Inl OSError
         | None \<Rightarrow>
             Inr (w\<lparr>files := (mkdir_parents (Path_parent path) (length (parts (Path_parent path)))
                                 (files w))
                               (Path_str path \<mapsto> Regular True (Some content)),
                     scandir := (scandir w)
                               (Path_str (Path_parent path) :=
                                  (if Path_name path \<in> set (scandir w (Path_str (Path_parent path)))
                                   then scandir w (Path_str (Path_parent path))
                                   else scandir w (Path_str (Path_parent path)) @ [Path_name path])),
                     written := written w @ [(Path_str path, content)]\<rparr>))"

text \<open>
  \<open>path.glob('*' + ext)\<close>. For an extension without the pattern characters \<open>*\<close>, \<open>?\<close>, \<open>[\<close> and
  without \<open>/\<close>, the pattern has one component and matches exactly the entry names that end
  with the extension; the model covers these extensions (\<open>plain_ext\<close>).
\<close>

definition plain_ext :: "string \<Rightarrow> bool" where
  "plain_ext ext = (\<forall>c \<in> set ext. c \<notin> set ''*?[/'')"

definition glob_star :: "world \<Rightarrow> Path \<Rightarrow> string \<Rightarrow> Path list" where
  "glob_star w path ext =
     map (\<lambda>name. path\<lparr>parts := parts path @ [name]\<rparr>)
         (filter (\<lambda>name. suffix ext name) (scandir w (Path_str path)))"

definition is_file :: "world \<Rightarrow> Path \<Rightarrow> bool" where
  "is_file w p = (case files w (Path_str p) of Some (Regular r c) \<Rightarrow> True | _ \<Rightarrow> False)"

definition find_text_files :: "FileHandler \<Rightarrow> world \<Rightarrow> string \<Rightarrow> string list option \<Rightarrow> py_error + string list" where
  "find_text_files h w directory extensions =
     (let exts = (case extensions of None \<Rightarrow> [''.txt''] | Some es \<Rightarrow> es);
          path = Path_init directory
      in case files w (Path_str path) of
           None \<Rightarrow> Inl FileNotFoundError
         | Some Directory \<Rightarrow>
             Inr (sort (map Path_str
                    (filter (is_file w) (concat (map (glob_star w path) exts)))))
         | Some _ \<Rightarrow> Inl NotADirectoryError)"

text \<open>\<open>get_output_path\<close>; creating the output directory can fail, and the failure leaves the
  function as it is.\<close>

definition get_output_path ::
  "FileHandler \<Rightarrow> world \<Rightarrow> string \<Rightarrow> string option \<Rightarrow> string \<Rightarrow> py_error + (string \<times> world)" where
  "get_output_path h w input_path output_dir sfx =
     (let input_path_obj = Path_init input_path;
          stem = Path_stem input_path_obj;
          extension = Path_suffix input_path_obj
      in case output_dir of
           Some d \<Rightarrow>
             if d \<noteq> [] then
               (let output_path_obj = Path_init d
                in case mkdir_failure w (Path_str output_path_obj) of
                     Some e \<Rightarrow> Inl e
                   | None \<Rightarrow>
                       Inr (Path_str (Path_child output_path_obj (stem @ sfx @ extension)),
                            w\<lparr>files := mkdir_parents output_path_obj
                                           (length (parts output_path_obj)) (files w)\<rparr>))
             else Inr (Path_str (Path_child (Path_parent input_path_obj) (stem @ sfx @ extension)), w)
         | None \<Rightarrow> Inr (Path_str (Path_child (Path_parent input_path_obj) (stem @ sfx @ extension)), w))"

section \<open>\<open>cli.py\<close>: the driver\<close>

text \<open>The namespace that \<open>argparse\<close> gives to \<open>main\<close>; an option that was not given is
  \<open>None\<close> (or \<open>False\<close> for a flag).\<close>

record options =
  arg_input :: "string option"
  arg_directory :: "string option"
  arg_width :: int
  arg_prefix :: "string option"
  arg_dedent :: bool
  arg_shorten :: "int option"
  arg_preserve_paragraphs :: bool
  arg_output :: "string option"
  arg_output_file :: "string option"
  arg_no_break_long_words :: bool
  arg_verbose :: bool

text \<open>Python's truth value of an option, as \<open>if options.shorten:\<close> and \<open>if args.input:\<close> test
  it: \<open>None\<close>, the number zero and the empty string count as false.\<close>

definition truthy_str :: "string option \<Rightarrow> bool" where
  "truthy_str x = (case x of None \<Rightarrow> False | Some s \<Rightarrow> s \<noteq> [])"

definition truthy_int :: "int option \<Rightarrow> bool" where
  "truthy_int x = (case x of None \<Rightarrow> False | Some n \<Rightarrow> n \<noteq> 0)"

definition str_value :: "string option \<Rightarrow> string" where
  "str_value x = (case x of None \<Rightarrow> [] | Some s \<Rightarrow> s)"

definition int_value :: "int option \<Rightarrow> int" where
  "int_value x = (case x of None \<Rightarrow> 0 | Some n \<Rightarrow> n)"

text \<open>The body of the \<open>try\<close> block of \<open>format_file\<close> after the file was read.\<close>

definition format_content :: "TextFormatter \<Rightarrow> options \<Rightarrow> string \<Rightarrow> (py_error + string) option" where
  "format_content formatter opts content0 =
     (let content = (if arg_dedent opts then dedent_text formatter content0 else content0)
      in if truthy_int (arg_shorten opts)
           then shorten formatter content (int_value (arg_shorten opts)) ''...''
         else if arg_preserve_paragraphs opts
           then format_paragraphs formatter content
         else if truthy_str (arg_prefix opts)
           then format_with_prefix formatter content (str_value (arg_prefix opts))
         else fill formatter content)"

text \<open>\<open>format_file\<close>: an exception of the body is raised again in verbose mode and otherwise
  reported on the error stream, with the empty string as result. A body that does not return
  is not an exception.\<close>

definition format_file ::
  "string \<Rightarrow> TextFormatter \<Rightarrow> FileHandler \<Rightarrow> options \<Rightarrow> world \<Rightarrow> ((py_error + string) \<times> world) option" where
  "format_file file_path formatter file_handler opts w =
     (case (case read_file file_handler w file_path of
              Inl e \<Rightarrow> Some (Inl e)
            | Inr content \<Rightarrow> format_content formatter opts content) of
        None \<Rightarrow> None
      | Some (Inr content) \<Rightarrow> Some (Inr content, w)
      | Some (Inl e) \<Rightarrow>
          if arg_verbose opts then Some (Inl e, w)
          else Some (Inr [], w\<lparr>stderr := stderr w @ [Processing_error file_path e]\<rparr>))"

text \<open>How one pass of the loop of \<open>main\<close> ends: by the interrupt, by \<open>continue\<close> on an empty
  result, by an exception, or with the content printed or written and counted.\<close>

datatype outcome = Interrupt | Skipped | Failed py_error | Delivered

text \<open>The handler \<open>except Exception\<close> of the loop.\<close>

definition report_failure :: "options \<Rightarrow> string \<Rightarrow> py_error \<Rightarrow> world \<Rightarrow> world" where
  "report_failure opts file_path e w =
     w\<lparr>stderr := stderr w @ (if arg_verbose opts then [Traceback e] else [])
                            @ [Processing_error file_path e]\<rparr>"

text \<open>The end of a pass that writes to \<open>output_path\<close>.\<close>

definition write_output ::
  "FileHandler \<Rightarrow> options \<Rightarrow> string \<Rightarrow> string \<Rightarrow> string \<Rightarrow> world \<Rightarrow> outcome \<times> world" where
  "write_output file_handler opts file_path output_path formatted_content w =
     (case write_file file_handler w output_path formatted_content of
        Inl e \<Rightarrow> (Failed e, report_failure opts file_path e w)
      | Inr w' \<Rightarrow>
          (Delivered, if arg_verbose opts then w'\<lparr>stdout := stdout w' @ [Saved output_path]\<rparr> else w'))"

text \<open>
  One pass of \<open>for file_path in files_to_process\<close>; \<open>n\<close> is \<open>len(files_to_process)\<close> and \<open>i\<close>
  the index of the pass. An interrupt during the pass is taken at its start.
\<close>

definition process_file ::
  "TextFormatter \<Rightarrow> FileHandler \<Rightarrow> options \<Rightarrow> nat \<Rightarrow> nat \<Rightarrow> string \<Rightarrow> world \<Rightarrow> (outcome \<times> world) option" where
  "process_file formatter file_handler args n i file_path w =
     (if sigint_at w = Some i then Some (Interrupt, w\<lparr>stderr := stderr w @ [Interrupted]\<rparr>)
      else
        (let w1 = (if arg_verbose args then w\<lparr>stdout := stdout w @ [Processing file_path]\<rparr> else w)
         in case format_file file_path formatter file_handler args w1 of
              None \<Rightarrow> None
            | Some (Inl e, w2) \<Rightarrow> Some (Failed e, report_failure args file_path e w2)
            | Some (Inr formatted_content, w2) \<Rightarrow>
                if formatted_content = [] \<and> \<not> arg_verbose args then Some (Skipped, w2)
                else if truthy_str (arg_output_file args) \<and> n = 1 then
                  Some (write_output file_handler args file_path (str_value (arg_output_file args))
                          formatted_content w2)
                else if truthy_str (arg_output args) then
                  (case get_output_path file_handler w2 file_path (arg_output args) ''_formatted'' of
                     Inl e \<Rightarrow> Some (Failed e, report_failure args file_path e w2)
                   | Inr (output_path, w3) \<Rightarrow>
                       Some (write_output file_handler args file_path output_path
                               formatted_content w3))
                else
                  Some (Delivered,
                        w2\<lparr>stdout := stdout w2 @ [Header file_path, Content formatted_content]\<rparr>)))"

text \<open>
  The loop, with the running \<open>processed_count\<close>. The result is the status returned from
  inside the loop, if any, the counter and the world; the list of outcomes of the passes is
  kept beside them for the statements about the run.
\<close>

fun process_files ::
  "TextFormatter \<Rightarrow> FileHandler \<Rightarrow> options \<Rightarrow> nat \<Rightarrow> nat \<Rightarrow> string list \<Rightarrow> world \<Rightarrow> int \<Rightarrow> outcome list
   \<Rightarrow> (int option \<times> int \<times> outcome list \<times> world) option" where
  "process_files formatter file_handler args n i [] w processed_count outs =
     Some (None, processed_count, outs, w)"
| "process_files formatter file_handler args n i (file_path # rest) w processed_count outs =
     (case process_file formatter file_handler args n i file_path w of
        None \<Rightarrow> None
      | Some (Interrupt, w') \<Rightarrow> Some (Some 130, processed_count, outs @ [Interrupt], w')
      | Some (Delivered, w') \<Rightarrow>
          process_files formatter file_handler args n (Suc i) rest w' (processed_count + 1)
            (outs @ [Delivered])
      | Some (out, w') \<Rightarrow>
          process_files formatter file_handler args n (Suc i) rest w' processed_count (outs @ [out]))"

text \<open>
  \<open>main\<close>: the exit status, the outcomes of the passes and the world after the run.
  \<open>parser.error\<close> ends the program with status 2. The formatter and the file handler are
  the ones \<open>main\<close> constructs.
\<close>

definition cli_formatter :: "options \<Rightarrow> TextFormatter" where
  "cli_formatter args =
     TextFormatter_init (arg_width args) [] [] True True False (\<not> arg_no_break_long_words args) True"

definition cli_file_handler :: FileHandler where
  "cli_file_handler = \<lparr>encoding = ''utf-8''\<rparr>"

definition run_files :: "options \<Rightarrow> world \<Rightarrow> string list \<Rightarrow> (int \<times> outcome list \<times> world) option" where
  "run_files args w files_to_process =
     (let n = length files_to_process;
          w1 = (if arg_verbose args then w\<lparr>stdout := stdout w @ [Found_files (int n)]\<rparr> else w)
      in case process_files (cli_formatter args) cli_file_handler args n 0 files_to_process w1 0 [] of
           None \<Rightarrow> None
         | Some (Some status, processed_count, outs, w2) \<Rightarrow> Some (status, outs, w2)
         | Some (None, processed_count, outs, w2) \<Rightarrow>
             Some (if processed_count > 0 then 0 else 1, outs,
                   if arg_verbose args
                   then w2\<lparr>stdout := stdout w2 @ [Processed_count processed_count (int n)]\<rparr>
                   else w2))"

definition main :: "options \<Rightarrow> world \<Rightarrow> (int \<times> outcome list \<times> world) option" where
  "main args w =
     (if \<not> truthy_str (arg_input args) \<and> \<not> truthy_str (arg_directory args)
      then Some (2, [], w\<lparr>stderr := stderr w @ [Usage_error]\<rparr>)
      else if truthy_str (arg_input args) then run_files args w [str_value (arg_input args)]
      else (case find_text_files cli_file_handler w (str_value (arg_directory args)) None of
              Inl e \<Rightarrow>
                Some (1, [], w\<lparr>stderr := stderr w @ [Search_error (str_value (arg_directory args)) e]\<rparr>)
            | Inr files_to_process \<Rightarrow>
                if files_to_process = []
                then Some (1, [], w\<lparr>stderr := stderr w @ [No_text_files (str_value (arg_directory args))]\<rparr>)
                else run_files args w files_to_process))"

text \<open>What a run shows: its exit status, the outcomes of its passes and the two streams.\<close>

definition exit_status :: "(int \<times> outcome list \<times> world) option \<Rightarrow> int option" where
  "exit_status r = map_option fst r"


definition run_stdout :: "(int \<times> outcome list \<times> world) option \<Rightarrow> message list option" where
  "run_stdout r = map_option (\<lambda>x. stdout (snd (snd x))) r"




text \<open>What the program has delivered in a world: the contents printed on the output stream
  and the writes that succeeded.\<close>

fun is_content :: "message \<Rightarrow> bool" where
  "is_content (Content c) = True"
| "is_content m = False"

definition deliveries :: "world \<Rightarrow> nat" where
  "deliveries w = length (filter is_content (stdout w)) + length (written w)"


text \<open>
  The options under which the wrapping loop is known to end. \<open>format_with_prefix\<close> makes
  the prefix the indent of every line; the other branches wrap without an indent. So either
  the prefix branch is not the one taken, or the width is not positive (the library then
  raises \<open>ValueError\<close>), or the prefix is shorter than the width.
\<close>

definition prefix_in_width :: "options \<Rightarrow> bool" where
  "prefix_in_width args =
     (truthy_int (arg_shorten args) \<or> arg_preserve_paragraphs args
      \<or> \<not> truthy_str (arg_prefix args) \<or> arg_width args \<le> 0
      \<or> len (str_value (arg_prefix args)) < arg_width args)"

section \<open>The branches of the driver, as the specification words them\<close>

datatype branch = Shorten_branch int | Paragraphs_branch | Prefix_branch string | Fill_branch

definition apply_branch :: "TextFormatter \<Rightarrow> branch \<Rightarrow> string \<Rightarrow> (py_error + string) option" where
  "apply_branch formatter b content =
     (case b of
        Shorten_branch n \<Rightarrow> shorten formatter content n ''...''
      | Paragraphs_branch \<Rightarrow> format_paragraphs formatter content
      | Prefix_branch p \<Rightarrow> format_with_prefix formatter content p
      | Fill_branch \<Rightarrow> fill formatter content)"

text \<open>The branch by the precedence of the specification, where an option counts as requested
  when it was given on the command line.\<close>

definition requested_branch :: "options \<Rightarrow> branch" where
  "requested_branch opts =
     (case arg_shorten opts of
        Some n \<Rightarrow> Shorten_branch n
      | None \<Rightarrow>
          if arg_preserve_paragraphs opts then Paragraphs_branch
          else (case arg_prefix opts of Some p \<Rightarrow> Prefix_branch p | None \<Rightarrow> Fill_branch))"

text \<open>The same precedence, where \<open>--shorten\<close> counts only with a width other than zero and
  \<open>--prefix\<close> only with a non-empty string.\<close>

definition effective_branch :: "options \<Rightarrow> branch" where
  "effective_branch opts =
     (if truthy_int (arg_shorten opts) then Shorten_branch (int_value (arg_shorten opts))
      else if arg_preserve_paragraphs opts then Paragraphs_branch
      else if truthy_str (arg_prefix opts) then Prefix_branch (str_value (arg_prefix opts))
      else Fill_branch)"

section \<open>Example runs\<close>

text \<open>The options of a command line that gives no option.\<close>

definition default_options :: options where
  "default_options =
     \<lparr>arg_input = None, arg_directory = None, arg_width = 80, arg_prefix = None,
      arg_dedent = False, arg_shorten = None, arg_preserve_paragraphs = False,
      arg_output = None, arg_output_file = None, arg_no_break_long_words = False,
      arg_verbose = False\<rparr>"

text \<open>A directory \<open>data\<close> with two text files and one other file.\<close>

definition w_data :: world where
  "w_data =
     \<lparr>files = (\<lambda>p. if p = ''data'' then Some Directory
                   else if p = ''data/a.txt'' then Some (Regular True (Some ''Hello   world''))
                   else if p = ''data/b.txt'' then Some (Regular True (Some ''foo bar''))
                   else if p = ''data/notes.md'' then Some (Regular True (Some ''notes''))
                   else None),
      scandir = (\<lambda>d. if d = ''data'' then [''notes.md'', ''b.txt'', ''a.txt''] else []),
      mkdir_failure = (\<lambda>p. None), write_failure = (\<lambda>p. None),
      sigint_at = None, stdout = [], stderr = [], written = []\<rparr>"


text \<open>One file whose text starts with a space, and the options \<open>-w 1 --prefix "> "\<close>.\<close>

definition w_indented :: world where
  "w_indented =
     \<lparr>files = (\<lambda>p. if p = ''in.txt'' then Some (Regular True (Some '' x'')) else None),
      scandir = (\<lambda>d. []), mkdir_failure = (\<lambda>p. None), write_failure = (\<lambda>p. None),
      sigint_at = None, stdout = [], stderr = [], written = []\<rparr>"

definition narrow_prefix_options :: options where
  "narrow_prefix_options =
     default_options\<lparr>arg_input := Some ''in.txt'', arg_width := 1, arg_prefix := Some ''> ''\<rparr>"

definition w_bad :: world where
  "w_bad =
     \<lparr>files = (\<lambda>p. if p = ''bad.txt'' then Some (Regular True None) else None),
      scandir = (\<lambda>d. []), mkdir_failure = (\<lambda>p. None), write_failure = (\<lambda>p. None),
      sigint_at = None, stdout = [], stderr = [], written = []\<rparr>"

section \<open>Measures and invariants of the wrapping loop\<close>

text \<open>The total length of a list of chunks, which \<open>cur_len\<close> holds for the current line.\<close>

definition total_len :: "string list \<Rightarrow> int" where
  "total_len cs = sum_list (map len cs)"

text \<open>The three ways a current line comes about, before a whitespace chunk at its end is
  dropped: the chunks that fit; the chunks that fit and a piece of a chunk that is too long
  for any line; such a chunk alone, when long words are not broken.\<close>

definition line_shape ::
  "TextWrapper \<Rightarrow> int \<Rightarrow> string list \<Rightarrow> string list \<Rightarrow> string list \<Rightarrow> bool" where
  "line_shape w wd chunks1 chunks3 cl3 =
     ((chunks1 = cl3 @ chunks3 \<and> total_len cl3 \<le> wd \<and> (cl3 \<noteq> [] \<or> chunks1 = []))
      \<or> (break_long_words w
          \<and> (\<exists>taken chunk rest e.
                 chunks1 = taken @ chunk # rest \<and> wd < len chunk \<and> total_len taken \<le> wd
                 \<and> 0 \<le> e \<and> e \<le> wd - total_len taken \<and> (taken = [] \<longrightarrow> 1 \<le> e)
                 \<and> chunks3 = drop (nat e) chunk # rest \<and> cl3 = taken @ [take (nat e) chunk]))
      \<or> (\<not> break_long_words w \<and> (\<exists>chunk. chunks1 = chunk # chunks3 \<and> wd < len chunk \<and> cl3 = [chunk])))"

text \<open>What decreases with every pass: the characters and the chunks still on the stack.\<close>

definition msr :: "string list \<Rightarrow> nat" where
  "msr cs = length (concat cs) + length cs"

text \<open>A line within the width, or an indent followed by one chunk of the text when long
  words are not broken.\<close>

definition line_ok :: "TextWrapper \<Rightarrow> string list \<Rightarrow> string \<Rightarrow> bool" where
  "line_ok w chunks0 l =
     (len l \<le> width w
      \<or> (\<not> break_long_words w
          \<and> (\<exists>c \<in> set chunks0. l = initial_indent w @ c \<or> l = subsequent_indent w @ c)))"

text \<open>At most one line, within the width: the lines of \<open>shorten\<close>.\<close>

definition one_short_line :: "int \<Rightarrow> string list \<Rightarrow> bool" where
  "one_short_line W lines = ((\<forall>l \<in> set lines. len l \<le> W) \<and> length lines \<le> 1)"

text \<open>Lines that are not empty and hold no line feed: the lines of \<open>wrap\<close> when whitespace
  is replaced.\<close>

definition clean_lines :: "string list \<Rightarrow> bool" where
  "clean_lines ls = (\<forall>l \<in> set ls. l \<noteq> [] \<and> NL \<notin> set l)"

text \<open>A paragraph that holds no blank line and does not end in a line feed, so that joining
  it to others with a blank line and splitting again gives it back.\<close>

fun sealed :: "string \<Rightarrow> bool" where
  "sealed [] = True"
| "sealed [c] = (c \<noteq> NL)"
| "sealed (a # b # cs) = (\<not> (a = NL \<and> b = NL) \<and> sealed (b # cs))"

text \<open>What \<open>format_paragraphs\<close> puts for one paragraph: the empty string for a paragraph that is
  empty or all whitespace, and otherwise the result of \<open>fill\<close> on the paragraph without its
  surrounding whitespace.\<close>

definition formatted_as :: "TextFormatter \<Rightarrow> string \<Rightarrow> string \<Rightarrow> bool" where
  "formatted_as f para fp =
     (if strip para = [] then fp = [] else fill f (strip para) = Some (Inr fp))"

text \<open>A wrapper whose first indent is longer than its width.\<close>

definition stuck_wrapper :: TextWrapper where
  "stuck_wrapper = wrapper (TextFormatter_init 1 ''ab'' [] True True False True True)"


section \<open>Properties of the formatter\<close>

text \<open>
  Claim C4. For every text \<open>T\<close>, \<open>fill(T)\<close> is the lines of \<open>wrap(T)\<close> joined with a single
  line feed: both raise the same error, both fail to return, or \<open>fill\<close> returns the joined
  lines of \<open>wrap\<close>. For an empty or all-whitespace \<open>T\<close>, \<open>fill\<close> returns the empty string and
  \<open>wrap\<close> the empty sequence.
\<close>

theorem fill_is_joined_wrap:
  "fill f T = map_option (map_sum id (join [NL])) (wrap f T)
   \<and> (strip T = [] \<longrightarrow> fill f T = Some (Inr []) \<and> wrap f T = Some (Inr []))"
  by (simp add: fill_def wrap_def TextWrapper_fill_def)

theorem fill_is_joined_wrap_witness:
  "strip [SP, TAB, NL] = []
   \<and> fill (TextFormatter_init 5 [] [] True True False True True) [SP, TAB, NL] = Some (Inr [])
   \<and> wrap (TextFormatter_init 5 [] [] True True False True True) [SP, TAB, NL] = Some (Inr [])
   \<and> wrap (TextFormatter_init 5 [] [] True True False True True) (''Hello   world'' @ [NL] @ ''foo'')
       = Some (Inr [''Hello'', ''world'', ''foo''])
   \<and> fill (TextFormatter_init 5 [] [] True True False True True) (''Hello   world'' @ [NL] @ ''foo'')
       = Some (Inr (''Hello'' @ [NL] @ ''world'' @ [NL] @ ''foo''))"
proof -
  have blank: "strip [SP, TAB, NL] = []"
    by code_simp
  have lines: "wrap (TextFormatter_init 5 [] [] True True False True True)
                 (''Hello   world'' @ [NL] @ ''foo'') = Some (Inr [''Hello'', ''world'', ''foo''])"
    by code_simp
  from fill_is_joined_wrap [of "TextFormatter_init 5 [] [] True True False True True" "[SP, TAB, NL]"]
    fill_is_joined_wrap [of "TextFormatter_init 5 [] [] True True False True True"
                            "''Hello   world'' @ [NL] @ ''foo''"]
    blank lines
  show ?thesis by simp
qed

subsection \<open>Splitting and joining lines\<close>

lemma split_acc_line:
  "NL \<notin> set l \<Longrightarrow> split_acc [NL] cur (l @ NL # s) = (cur @ l) # split_acc [NL] [] s"
  by (induction l arbitrary: cur) auto

lemma split_acc_last:
  "NL \<notin> set l \<Longrightarrow> split_acc [NL] cur l = [cur @ l]"
  by (induction l arbitrary: cur) auto

lemma split_join_lines:
  "ls \<noteq> [] \<Longrightarrow> \<forall>l \<in> set ls. NL \<notin> set l \<Longrightarrow> split_on [NL] (join [NL] ls) = ls"
proof (induction "[NL]" ls rule: join.induct)
  case 1
  then show ?case by simp
next
  case (2 p)
  then show ?case by (simp add: split_on_def split_acc_last)
next
  case (3 p q ps)
  then show ?case
    using split_acc_line [of p "[]" "join [NL] (q # ps)"]
    by (simp add: split_on_def)
qed

lemma split_acc_lines:
  "NL \<notin> set cur \<Longrightarrow> split_acc [NL] cur s \<noteq> [] \<and> (\<forall>l \<in> set (split_acc [NL] cur s). NL \<notin> set l)"
  by (induction "[NL]" cur s rule: split_acc.induct) auto

lemma split_on_lines:
  "split_on [NL] s \<noteq> [] \<and> (\<forall>l \<in> set (split_on [NL] s). NL \<notin> set l)"
  using split_acc_lines [of "[]" s] by (simp add: split_on_def)

subsection \<open>The margin of \<open>dedent\<close>\<close>

lemma lcp_prefix_left: "prefix xs ys \<Longrightarrow> longest_common_prefix xs ys = xs"
  by (induction xs ys rule: longest_common_prefix.induct) auto

lemma lcp_prefix_right: "prefix ys xs \<Longrightarrow> longest_common_prefix xs ys = ys"
  by (induction xs ys rule: longest_common_prefix.induct) auto

lemma cut_margin_lcp:
  "\<not> prefix xs ys \<Longrightarrow> \<not> prefix ys xs \<Longrightarrow> cut_margin xs ys = longest_common_prefix xs ys"
  by (induction xs ys rule: cut_margin.induct) auto

lemma margin_step_Some:
  "margin_step indent (Some m) = Some (longest_common_prefix m indent)"
  by (simp add: margin_step_def lcp_prefix_left lcp_prefix_right cut_margin_lcp)

lemma lcp_append: "longest_common_prefix (p @ xs) (p @ ys) = p @ longest_common_prefix xs ys"
  by (induction p) auto

lemma fold_margin_Some:
  "\<exists>m. fold margin_step ids (Some a) = Some m \<and> prefix m a \<and> (\<forall>i \<in> set ids. prefix m i)"
proof (induction ids arbitrary: a)
  case Nil
  show ?case by simp
next
  case (Cons i ids)
  from Cons.IH [of "longest_common_prefix a i"]
  obtain m where m: "fold margin_step ids (Some (longest_common_prefix a i)) = Some m"
      "prefix m (longest_common_prefix a i)" "\<forall>j \<in> set ids. prefix m j"
    by blast
  have "prefix m a" "prefix m i"
    using m(2) longest_common_prefix_prefix1 [of a i] longest_common_prefix_prefix2 [of a i]
    by (auto intro: prefix_order.trans)
  with m show ?case by (simp add: margin_step_Some)
qed

lemma fold_margin_drop:
  "fold margin_step ids (Some a) = Some m \<Longrightarrow>
   fold margin_step (map (drop (length m)) ids) (Some (drop (length m) a)) = Some []"
proof -
  have gen: "prefix p a \<Longrightarrow> \<forall>i \<in> set ids. prefix p i \<Longrightarrow>
             fold margin_step ids (Some a) = Some m \<Longrightarrow>
             fold margin_step (map (drop (length p)) ids) (Some (drop (length p) a))
               = Some (drop (length p) m)" for p
  proof (induction ids arbitrary: a)
    case Nil
    then show ?case by simp
  next
    case (Cons i ids)
    from Cons.prems obtain a' i' where a: "a = p @ a'" and i: "i = p @ i'"
      by (auto simp: prefix_def)
    have l: "longest_common_prefix a i = p @ longest_common_prefix a' i'"
      by (simp add: a i lcp_append)
    have "fold margin_step (map (drop (length p)) ids)
            (Some (drop (length p) (longest_common_prefix a i))) = Some (drop (length p) m)"
      using Cons.prems by (intro Cons.IH) (auto simp: l margin_step_Some)
    then show ?case by (simp add: margin_step_Some a i lcp_append)
  qed
  assume f: "fold margin_step ids (Some a) = Some m"
  from fold_margin_Some [of ids a] f have "prefix m a" "\<forall>i \<in> set ids. prefix m i" by auto
  from gen [OF this f] show ?thesis by simp
qed


subsection \<open>The lines after \<open>dedent\<close>\<close>

lemma blank_line_idem: "blank_line (blank_line l) = blank_line l"
  by (simp add: blank_line_def)

lemma leading_whitespace_Cons:
  "leading_whitespace (l # ls) =
     (if dropWhile sp_tab l \<noteq> [] then takeWhile sp_tab l # leading_whitespace ls
      else leading_whitespace ls)"
  by (simp add: leading_whitespace_def)

lemma blank_line_fixed:
  "blank_line l = l \<longleftrightarrow> (l = [] \<or> dropWhile sp_tab l \<noteq> [])"
  by (auto simp: blank_line_def dropWhile_eq_Nil_conv)

lemma takeWhile_dropWhile_append:
  assumes "\<forall>c \<in> set r. P c" "d = [] \<or> \<not> P (hd d)"
  shows "takeWhile P (r @ d) = r \<and> dropWhile P (r @ d) = d"
  using assms by (cases d) (auto simp: takeWhile_append2 dropWhile_append2)

lemma prefix_takeWhile_split:
  assumes "prefix m (takeWhile sp_tab l)"
  shows "prefix m l \<and> takeWhile sp_tab (drop (length m) l) = drop (length m) (takeWhile sp_tab l)
         \<and> dropWhile sp_tab (drop (length m) l) = dropWhile sp_tab l"
proof -
  from assms obtain r where r: "takeWhile sp_tab l = m @ r" by (auto simp: prefix_def)
  obtain d where d: "d = dropWhile sp_tab l" by simp
  have l: "l = m @ r @ d"
    using takeWhile_dropWhile_id [of sp_tab l] r d by simp
  have all: "\<forall>c \<in> set r. sp_tab c"
    using set_takeWhileD [of _ sp_tab l] r by auto
  have dw: "d = [] \<or> \<not> sp_tab (hd d)"
    using hd_dropWhile [of sp_tab l] d by auto
  have p: "prefix m l" using l by (metis prefixI)
  have dr: "drop (length m) l = r @ d"
    using l by (metis append_eq_conv_conj)
  from takeWhile_dropWhile_append [OF all dw] p dr r d show ?thesis by simp
qed

lemma leading_whitespace_strip:
  assumes "m \<noteq> []" "\<forall>i \<in> set (leading_whitespace ls). prefix m i" "\<forall>l \<in> set ls. blank_line l = l"
  shows "leading_whitespace (map (strip_margin m) ls) = map (drop (length m)) (leading_whitespace ls)
         \<and> (\<forall>l \<in> set (map (strip_margin m) ls). blank_line l = l)"
  using assms
proof (induction ls)
  case Nil
  show ?case by (simp add: leading_whitespace_def)
next
  case (Cons l ls)
  have ih: "leading_whitespace (map (strip_margin m) ls) = map (drop (length m)) (leading_whitespace ls)"
    and ihb: "\<forall>l \<in> set (map (strip_margin m) ls). blank_line l = l"
    using Cons by (auto simp: leading_whitespace_Cons split: if_splits)
  show ?case
  proof (cases "dropWhile sp_tab l \<noteq> []")
    case True
    then have "prefix m (takeWhile sp_tab l)"
      using Cons.prems(2) by (simp add: leading_whitespace_Cons)
    from prefix_takeWhile_split [OF this]
    have p: "prefix m l"
      and t: "takeWhile sp_tab (drop (length m) l) = drop (length m) (takeWhile sp_tab l)"
      and d: "dropWhile sp_tab (drop (length m) l) = dropWhile sp_tab l"
      by simp_all
    have s: "strip_margin m l = drop (length m) l" using p by (simp add: strip_margin_def)
    have b: "blank_line (drop (length m) l) = drop (length m) l"
      using d True by (simp only: blank_line_fixed) simp
    have lw: "leading_whitespace (l # ls) = takeWhile sp_tab l # leading_whitespace ls"
      using True by (simp add: leading_whitespace_Cons)
    have lw': "leading_whitespace (drop (length m) l # map (strip_margin m) ls)
                 = drop (length m) (takeWhile sp_tab l) # leading_whitespace (map (strip_margin m) ls)"
      using True d t by (simp add: leading_whitespace_Cons)
    show ?thesis using ih ihb s b lw lw' by simp
  next
    case False
    then have e: "l = []" using Cons.prems(3) by (simp add: blank_line_fixed)
    have s: "strip_margin m [] = []" by (simp add: strip_margin_def)
    have b: "blank_line [] = []" by (simp add: blank_line_def)
    show ?thesis using ih ihb by (simp add: e s b leading_whitespace_Cons)
  qed
qed

lemma strip_margin_no_NL: "NL \<notin> set l \<Longrightarrow> NL \<notin> set (strip_margin m l)"
  by (auto simp: strip_margin_def dest: in_set_dropD)

lemma blank_line_no_NL: "NL \<notin> set l \<Longrightarrow> NL \<notin> set (blank_line l)"
  by (simp add: blank_line_def)

lemma dedent_fixed:
  assumes ne: "ls \<noteq> []" and nl: "\<forall>l \<in> set ls. NL \<notin> set l" and bl: "\<forall>l \<in> set ls. blank_line l = l"
      and mg: "fold margin_step (leading_whitespace ls) None = None
               \<or> fold margin_step (leading_whitespace ls) None = Some []"
  shows "textwrap_dedent (join [NL] ls) = join [NL] ls"
proof -
  have "map blank_line (split_on [NL] (join [NL] ls)) = ls"
    using split_join_lines [OF ne nl] bl by (simp add: map_idI)
  with mg show ?thesis by (auto simp: textwrap_dedent_def Let_def)
qed

lemma textwrap_dedent_idem: "textwrap_dedent (textwrap_dedent text) = textwrap_dedent text"
proof -
  let ?ls = "map blank_line (split_on [NL] text)"
  let ?mg = "fold margin_step (leading_whitespace ?ls) None"
  have ne: "?ls \<noteq> []" using split_on_lines [of "text"] by simp
  have nl: "\<forall>l \<in> set ?ls. NL \<notin> set l"
    using split_on_lines [of "text"] by (auto simp: blank_line_no_NL)
  have bl: "\<forall>l \<in> set ?ls. blank_line l = l" by (auto simp: blank_line_idem)
  show ?thesis
  proof (cases "?mg = None \<or> ?mg = Some []")
    case True
    then have eq: "textwrap_dedent text = join [NL] ?ls"
      by (auto simp: textwrap_dedent_def Let_def)
    from dedent_fixed [OF ne nl bl True] eq show ?thesis by simp
  next
    case False
    then obtain m where m: "?mg = Some m" "m \<noteq> []" by auto
    then have eq: "textwrap_dedent text = join [NL] (map (strip_margin m) ?ls)"
      by (simp add: textwrap_dedent_def Let_def)
    from m obtain i ids where lw: "leading_whitespace ?ls = i # ids"
      by (cases "leading_whitespace ?ls") auto
    from m lw have f: "fold margin_step ids (Some i) = Some m"
      by (simp add: margin_step_def)
    from fold_margin_Some [of ids i] f have pre: "\<forall>j \<in> set (leading_whitespace ?ls). prefix m j"
      by (auto simp: lw)
    from leading_whitespace_strip [OF m(2) pre bl]
    have lw': "leading_whitespace (map (strip_margin m) ?ls) = map (drop (length m)) (i # ids)"
      and bl': "\<forall>l \<in> set (map (strip_margin m) ?ls). blank_line l = l"
      by (simp_all add: lw)
    have mg': "fold margin_step (leading_whitespace (map (strip_margin m) ?ls)) None = Some []"
      using fold_margin_drop [OF f] by (simp only: lw') (simp add: margin_step_def)
    have ne': "map (strip_margin m) ?ls \<noteq> []" using ne by simp
    have nl': "\<forall>l \<in> set (map (strip_margin m) ?ls). NL \<notin> set l"
      using nl by (auto simp: strip_margin_no_NL)
    from dedent_fixed [OF ne' nl' bl'] mg' eq show ?thesis by simp
  qed
qed


text \<open>
  Claim C9. For every text \<open>T\<close>, dedent is idempotent: \<open>dedent(dedent(T))\<close> equals \<open>dedent(T)\<close>.
\<close>

theorem dedent_text_idempotent:
  "dedent_text f (dedent_text f T) = dedent_text f T"
  by (simp add: dedent_text_def textwrap_dedent_idem)

subsection \<open>The current line of a pass\<close>

lemma total_len_simps [simp]:
  "total_len [] = 0" "total_len (c # cs) = len c + total_len cs"
  "total_len (cs @ ds) = total_len cs + total_len ds"
  by (simp_all add: total_len_def)

lemma total_len_concat: "len (concat cs) = total_len cs"
  by (induction cs) (simp_all add: len_def)

lemma total_len_nonneg: "0 \<le> total_len cs"
  by (induction cs) (simp_all add: len_def)

lemma len_nonneg [simp]: "0 \<le> len s"
  by (simp add: len_def)

lemma take_fitting_result:
  "take_fitting wd cs cl n = (cs', cl', n') \<Longrightarrow>
   \<exists>taken. cs = taken @ cs' \<and> cl' = cl @ taken \<and> n' = n + total_len taken
           \<and> (taken = [] \<or> n' \<le> wd) \<and> (cs' \<noteq> [] \<longrightarrow> n' + len (hd cs') > wd)"
proof (induction cs arbitrary: cl n)
  case Nil
  then show ?case by simp
next
  case (Cons c cs)
  show ?case
  proof (cases "n + len c \<le> wd")
    case True
    with Cons.prems have "take_fitting wd cs (cl @ [c]) (n + len c) = (cs', cl', n')" by simp
    from Cons.IH [OF this] obtain taken where
      t: "cs = taken @ cs'" "cl' = (cl @ [c]) @ taken" "n' = n + len c + total_len taken"
         "taken = [] \<or> n' \<le> wd" "cs' \<noteq> [] \<longrightarrow> n' + len (hd cs') > wd"
      by blast
    have "n' \<le> wd" using t(3,4) True by auto
    with t show ?thesis
      by (intro exI [of _ "c # taken"]) simp
  next
    case False
    with Cons.prems show ?thesis by (intro exI [of _ "[]"]) auto
  qed
qed

lemma rfind_rev_bound: "rfind_rev c s < len s"
  by (induction s) (auto simp: len_def)

lemma rfind_bound: "0 \<le> e \<Longrightarrow> rfind s c e < e"
proof -
  assume e: "0 \<le> e"
  have "rfind s c e < len (rev (slice_to s e))"
    unfolding rfind_def by (rule rfind_rev_bound)
  also have "\<dots> \<le> e" using e by (simp add: len_def slice_to_def)
  finally show ?thesis .
qed

lemma handle_long_word_break:
  assumes "break_long_words w" "1 \<le> wd" "0 \<le> n" "n \<le> wd" "wd < len chunk"
  shows "\<exists>e. 0 \<le> e \<and> e \<le> wd - n \<and> (n = 0 \<longrightarrow> 1 \<le> e)
             \<and> handle_long_word w (chunk # rest) cl n wd
                 = (drop (nat e) chunk # rest, cl @ [take (nat e) chunk])"
proof -
  let ?sl = "wd - n"
  let ?h = "rfind chunk HYPHEN ?sl"
  let ?e = "(if break_on_hyphens w \<and> len chunk > ?sl \<and> ?h > 0
                \<and> (\<exists>c \<in> set (slice_to chunk ?h). c \<noteq> HYPHEN)
             then ?h + 1 else ?sl)"
  have h: "?h < ?sl" using assms by (intro rfind_bound) simp
  have e0: "0 \<le> ?e" using assms by auto
  have e1: "?e \<le> ?sl" using h by auto
  have e2: "n = 0 \<longrightarrow> 1 \<le> ?e" using assms by auto
  have "handle_long_word w (chunk # rest) cl n wd
          = (drop (nat ?e) chunk # rest, cl @ [take (nat ?e) chunk])"
    using assms e0 by (simp add: handle_long_word_def Let_def slice_to_def slice_from_def)
  with e0 e1 e2 show ?thesis by blast
qed

lemma handle_long_word_keep:
  assumes "\<not> break_long_words w"
  shows "handle_long_word w (chunk # rest) cl n wd
           = (if cl = [] then (rest, [chunk]) else (chunk # rest, cl))"
  using assms by (simp add: handle_long_word_def Let_def)

lemma current_line_shape:
  assumes wd: "1 \<le> wd" and cur: "current_line w wd chunks1 = (chunks3, cl4, n4)"
  shows "\<exists>cl3. line_shape w wd chunks1 chunks3 cl3 \<and> n4 = total_len cl4
               \<and> cl4 = (if drop_whitespace w \<and> cl3 \<noteq> [] \<and> strip (last cl3) = []
                         then butlast cl3 else cl3)"
proof -
  obtain chunks2 cl2 n2 where tf: "take_fitting wd chunks1 [] 0 = (chunks2, cl2, n2)"
    by (cases "take_fitting wd chunks1 [] 0") auto
  from take_fitting_result [OF tf] obtain taken where
    t: "chunks1 = taken @ chunks2" "cl2 = taken" "n2 = total_len taken"
       "taken = [] \<or> n2 \<le> wd" "chunks2 \<noteq> [] \<longrightarrow> n2 + len (hd chunks2) > wd"
    by auto
  have n2: "0 \<le> n2" "n2 \<le> wd"
    using t(3,4) wd total_len_nonneg [of taken] by auto
  let ?long = "chunks2 \<noteq> [] \<and> len (hd chunks2) > wd"
  obtain cs3 cl3 where hl: "(if ?long then handle_long_word w chunks2 cl2 n2 wd else (chunks2, cl2)) = (cs3, cl3)"
    by (cases "(if ?long then handle_long_word w chunks2 cl2 n2 wd else (chunks2, cl2))") auto
  let ?n3 = "(if ?long then sum_list (map len cl3) else n2)"
  let ?dropit = "drop_whitespace w \<and> cl3 \<noteq> [] \<and> strip (last cl3) = []"
  have res: "chunks3 = cs3" "cl4 = (if ?dropit then butlast cl3 else cl3)"
            "n4 = (if ?dropit then ?n3 - len (last cl3) else ?n3)"
    using cur tf hl by (simp_all add: current_line_def Let_def)
  have shape: "line_shape w wd chunks1 cs3 cl3 \<and> ?n3 = total_len cl3"
  proof (cases ?long)
    case False
    then have "cs3 = chunks2" "cl3 = taken" using hl t by auto
    moreover have "taken \<noteq> [] \<or> chunks1 = []"
    proof (rule ccontr)
      assume "\<not> (taken \<noteq> [] \<or> chunks1 = [])"
      then have "taken = []" "chunks2 \<noteq> []" using t(1) by auto
      with t(3,5) False show False by simp
    qed
    ultimately show ?thesis using t n2 False by (auto simp: line_shape_def total_len_def)
  next
    case True
    then obtain chunk rest where c: "chunks2 = chunk # rest" "wd < len chunk"
      by (cases chunks2) auto
    show ?thesis
    proof (cases "break_long_words w")
      case blw: True
      from handle_long_word_break [OF blw wd n2 c(2), of rest cl2]
      obtain e where e: "0 \<le> e" "e \<le> wd - n2" "n2 = 0 \<longrightarrow> 1 \<le> e"
        "handle_long_word w (chunk # rest) cl2 n2 wd = (drop (nat e) chunk # rest, cl2 @ [take (nat e) chunk])"
        by blast
      have r: "cs3 = drop (nat e) chunk # rest" "cl3 = taken @ [take (nat e) chunk]"
        using hl True c e(4) t(2) by auto
      have e3: "taken = [] \<longrightarrow> 1 \<le> e" using e(3) t(3) by simp
      have "\<exists>taken chunk rest e.
                 chunks1 = taken @ chunk # rest \<and> wd < len chunk \<and> total_len taken \<le> wd
                 \<and> 0 \<le> e \<and> e \<le> wd - total_len taken \<and> (taken = [] \<longrightarrow> 1 \<le> e)
                 \<and> cs3 = drop (nat e) chunk # rest \<and> cl3 = taken @ [take (nat e) chunk]"
        using r e3 t(1,3) c e(1,2) n2 by blast
      then have "line_shape w wd chunks1 cs3 cl3"
        unfolding line_shape_def using blw by blast
      then show ?thesis using True by (simp add: total_len_def)
    next
      case keep: False
      from handle_long_word_keep [OF keep, of chunk rest cl2 n2 wd] hl True c
      have r: "(cs3, cl3) = (if cl2 = [] then (rest, [chunk]) else (chunk # rest, cl2))"
        by simp
      show ?thesis
      proof (cases "cl2 = []")
        case True
        with r t c keep \<open>?long\<close> show ?thesis by (auto simp: line_shape_def total_len_def)
      next
        case False
        with r t c keep n2 \<open>?long\<close> show ?thesis by (auto simp: line_shape_def total_len_def)
      qed
    qed
  qed
  have n4: "n4 = total_len cl4"
  proof (cases ?dropit)
    case True
    then obtain xs x where "cl3 = xs @ [x]" by (metis append_butlast_last_id)
    with res True shape show ?thesis by simp
  next
    case False
    with res shape show ?thesis by auto
  qed
  from shape n4 res show ?thesis by blast
qed

lemma msr_simps [simp]:
  "msr [] = 0" "msr (c # cs) = Suc (length c + msr cs)" "msr (cs @ ds) = msr cs + msr ds"
  by (simp_all add: msr_def)

lemma msr_pos: "cs \<noteq> [] \<Longrightarrow> 0 < msr cs"
  by (cases cs) simp_all

lemma total_len_take: "0 \<le> e \<Longrightarrow> len (take (nat e) c) \<le> e"
  by (simp add: len_def)

lemma line_shape_cases [consumes 1, case_names fit broken whole]:
  assumes "line_shape w wd chunks1 chunks3 cl3"
  obtains "chunks1 = cl3 @ chunks3" "total_len cl3 \<le> wd" "cl3 \<noteq> [] \<or> chunks1 = []"
  | taken chunk rest e where "break_long_words w"
      "chunks1 = taken @ chunk # rest" "wd < len chunk" "total_len taken \<le> wd"
      "0 \<le> e" "e \<le> wd - total_len taken" "taken = [] \<longrightarrow> 1 \<le> e"
      "chunks3 = drop (nat e) chunk # rest" "cl3 = taken @ [take (nat e) chunk]"
  | chunk where "\<not> break_long_words w" "chunks1 = chunk # chunks3" "wd < len chunk" "cl3 = [chunk]"
  using assms unfolding line_shape_def by blast

lemma shape_progress:
  assumes "line_shape w wd chunks1 chunks3 cl3" "1 \<le> wd" "chunks1 \<noteq> []"
  shows "msr chunks3 < msr chunks1"
  using assms(1)
proof (cases rule: line_shape_cases)
  case fit
  with assms(3) msr_pos [of cl3] show ?thesis by auto
next
  case (broken taken chunk rest e)
  have pos: "0 < msr taken + nat e"
    using broken(7) msr_pos [of taken] by (cases "taken = []") auto
  have le: "nat e \<le> length chunk"
    using broken(3,5,6) total_len_nonneg [of taken] by (simp add: len_def)
  have "length (drop (nat e) chunk) < msr taken + length chunk"
    using pos le by simp arith
  then show ?thesis by (simp add: broken(2,8))
next
  case (whole chunk)
  then show ?thesis by simp
qed

lemma shape_bound:
  assumes "line_shape w wd chunks1 chunks3 cl3" "1 \<le> wd"
  shows "total_len cl3 \<le> wd
         \<or> (\<not> break_long_words w \<and> (\<exists>c. cl3 = [c] \<and> c \<in> set chunks1 \<and> wd < len c))"
  using assms(1)
proof (cases rule: line_shape_cases)
  case fit
  then show ?thesis by simp
next
  case (broken taken chunk rest e)
  from total_len_take [OF broken(5), of chunk] broken show ?thesis by simp
next
  case (whole chunk)
  then show ?thesis by simp
qed

lemma shape_subset:
  assumes "line_shape w wd chunks1 chunks3 cl3" "\<not> break_long_words w"
  shows "set chunks3 \<subseteq> set chunks1"
  using assms unfolding line_shape_def by auto

lemma shape_chars:
  assumes "line_shape w wd chunks1 chunks3 cl3"
  shows "set (concat cl3) \<subseteq> set (concat chunks1) \<and> set (concat chunks3) \<subseteq> set (concat chunks1)"
  using assms unfolding line_shape_def
  by (auto dest: in_set_takeD in_set_dropD)

lemma shape_nonempty:
  assumes "line_shape w wd chunks1 chunks3 cl3" "1 \<le> wd" "\<forall>c \<in> set chunks1. c \<noteq> []"
  shows "(\<forall>c \<in> set chunks3. c \<noteq> []) \<and> (\<forall>c \<in> set (butlast cl3). c \<noteq> [])"
  using assms(1)
proof (cases rule: line_shape_cases)
  case fit
  with assms(3) show ?thesis by (auto dest: in_set_butlastD)
next
  case (broken taken chunk rest e)
  have "nat e < length chunk"
    using broken(3,5,6) total_len_nonneg [of taken] by (simp add: len_def)
  then have "drop (nat e) chunk \<noteq> []" by simp
  with broken assms(3) show ?thesis by auto
next
  case (whole chunk)
  with assms(3) show ?thesis by auto
qed

lemma total_len_butlast: "total_len (butlast cl) \<le> total_len cl"
  by (induction cl) (auto simp: len_def)

lemma strip_Nil [simp]: "strip [] = []"
  by (simp add: strip_def lstrip_def rstrip_def)

lemma current_line_facts:
  assumes wd: "1 \<le> wd" and cur: "current_line w wd chunks1 = (chunks3, cl4, n4)"
  shows "n4 = total_len cl4"
    and "chunks1 \<noteq> [] \<Longrightarrow> msr chunks3 < msr chunks1"
    and "total_len cl4 \<le> wd
         \<or> (\<not> break_long_words w \<and> (\<exists>c. cl4 = [c] \<and> c \<in> set chunks1 \<and> wd < len c))"
    and "\<not> break_long_words w \<Longrightarrow> set chunks3 \<subseteq> set chunks1"
    and "set (concat cl4) \<subseteq> set (concat chunks1)"
    and "set (concat chunks3) \<subseteq> set (concat chunks1)"
    and "\<forall>c \<in> set chunks1. c \<noteq> [] \<Longrightarrow> \<forall>c \<in> set chunks3. c \<noteq> []"
    and "\<forall>c \<in> set chunks1. c \<noteq> [] \<Longrightarrow> drop_whitespace w \<Longrightarrow> \<forall>c \<in> set cl4. c \<noteq> []"
proof -
  from current_line_shape [OF wd cur] obtain cl3 where
    sh: "line_shape w wd chunks1 chunks3 cl3" and n4: "n4 = total_len cl4"
    and cl4: "cl4 = (if drop_whitespace w \<and> cl3 \<noteq> [] \<and> strip (last cl3) = [] then butlast cl3 else cl3)"
    by blast
  show "n4 = total_len cl4" by (rule n4)
  show "chunks1 \<noteq> [] \<Longrightarrow> msr chunks3 < msr chunks1"
    using shape_progress [OF sh wd] by simp
  show "total_len cl4 \<le> wd
         \<or> (\<not> break_long_words w \<and> (\<exists>c. cl4 = [c] \<and> c \<in> set chunks1 \<and> wd < len c))"
  proof (cases "cl4 = cl3")
    case True
    with shape_bound [OF sh wd] show ?thesis by simp
  next
    case False
    then have b: "cl4 = butlast cl3" using cl4 by (auto split: if_splits)
    from shape_bound [OF sh wd] show ?thesis
    proof
      assume "total_len cl3 \<le> wd"
      with total_len_butlast [of cl3] b show ?thesis by simp
    next
      assume "\<not> break_long_words w \<and> (\<exists>c. cl3 = [c] \<and> c \<in> set chunks1 \<and> wd < len c)"
      then have "cl4 = []" using b by auto
      with wd show ?thesis by simp
    qed
  qed
  show "\<not> break_long_words w \<Longrightarrow> set chunks3 \<subseteq> set chunks1"
    using shape_subset [OF sh] by simp
  have "set (concat cl4) \<subseteq> set (concat cl3)"
    using cl4 by (auto dest: in_set_butlastD)
  with shape_chars [OF sh] show "set (concat cl4) \<subseteq> set (concat chunks1)" by blast
  from shape_chars [OF sh] show "set (concat chunks3) \<subseteq> set (concat chunks1)" by simp
  show "\<forall>c \<in> set chunks1. c \<noteq> [] \<Longrightarrow> \<forall>c \<in> set chunks3. c \<noteq> []"
    using shape_nonempty [OF sh wd] by simp
  show "\<forall>c \<in> set chunks1. c \<noteq> [] \<Longrightarrow> drop_whitespace w \<Longrightarrow> \<forall>c \<in> set cl4. c \<noteq> []"
  proof -
    assume ne: "\<forall>c \<in> set chunks1. c \<noteq> []" and dw: "drop_whitespace w"
    from shape_nonempty [OF sh wd ne] have bl: "\<forall>c \<in> set (butlast cl3). c \<noteq> []" by simp
    show "\<forall>c \<in> set cl4. c \<noteq> []"
    proof (cases "cl3 \<noteq> [] \<and> strip (last cl3) = []")
      case True
      with cl4 dw bl show ?thesis by simp
    next
      case False
      then have "cl3 = [] \<or> last cl3 \<noteq> []" by auto
      moreover have "cl4 = cl3" using cl4 False by simp
      ultimately show ?thesis using bl
        by (cases cl3 rule: rev_cases) auto
    qed
  qed
qed

lemma current_line_Nil: "current_line w wd [] = ([], [], 0)"
  by (simp add: current_line_def)

lemma wrap_pass_chunks:
  assumes "wrap_pass w chunks lines = (brk, chunks', lines')"
  shows "chunks' = fst (current_line w (width w - len (pass_indent w lines)) (pass_chunks w chunks lines))"
  using assms
  by (auto simp: wrap_pass_def Let_def split: prod.splits if_splits option.splits)

lemma msr_pass_chunks: "chunks \<noteq> [] \<Longrightarrow> msr (pass_chunks w chunks lines) \<le> msr chunks"
  by (cases chunks) (auto simp: pass_chunks_def)

lemma short_indents_width:
  assumes "len (initial_indent w) < width w" "len (subsequent_indent w) < width w"
  shows "1 \<le> width w - len (pass_indent w lines)"
  using assms by (simp add: pass_indent_def)

lemma wrap_pass_progress:
  assumes ne: "chunks \<noteq> []"
      and ind: "len (initial_indent w) < width w" "len (subsequent_indent w) < width w"
      and pass: "wrap_pass w chunks lines = (brk, chunks', lines')"
  shows "msr chunks' < msr chunks"
proof -
  let ?wd = "width w - len (pass_indent w lines)"
  let ?c1 = "pass_chunks w chunks lines"
  obtain chunks3 cl4 n4 where cur: "current_line w ?wd ?c1 = (chunks3, cl4, n4)"
    by (cases "current_line w ?wd ?c1") auto
  have c': "chunks' = chunks3" using wrap_pass_chunks [OF pass] cur by simp
  have wd: "1 \<le> ?wd" using ind by (rule short_indents_width)
  show ?thesis
  proof (cases "?c1 = []")
    case True
    with cur have "chunks3 = []" by (simp add: current_line_Nil)
    with c' msr_pos [OF ne] show ?thesis by simp
  next
    case False
    from current_line_facts(2) [OF wd cur False] msr_pass_chunks [OF ne, of w lines] c'
    show ?thesis by simp
  qed
qed

lemma wrap_loop_rule:
  assumes ind: "len (initial_indent w) < width w" "len (subsequent_indent w) < width w"
      and inv: "I chunks lines"
      and step: "\<And>chunks lines brk chunks' lines'.
                   I chunks lines \<Longrightarrow> chunks \<noteq> [] \<Longrightarrow> wrap_pass w chunks lines = (brk, chunks', lines')
                   \<Longrightarrow> (if brk then Q lines' else I chunks' lines')"
      and fin: "\<And>lines. I [] lines \<Longrightarrow> Q lines"
  shows "\<exists>r. wrap_loop w chunks lines = Some r \<and> Q r"
  using inv
proof (induction chunks arbitrary: lines rule: measure_induct_rule [where f = msr])
  case (less chunks)
  show ?case
  proof (cases "chunks = []")
    case True
    with less.prems fin show ?thesis
      by (subst wrap_loop.simps) simp
  next
    case False
    obtain brk chunks' lines' where pass: "wrap_pass w chunks lines = (brk, chunks', lines')"
      by (cases "wrap_pass w chunks lines") auto
    from step [OF less.prems False pass]
    have st: "if brk then Q lines' else I chunks' lines'" .
    show ?thesis
    proof (cases brk)
      case True
      with st pass False show ?thesis
        by (subst wrap_loop.simps) simp
    next
      case notbrk: False
      from wrap_pass_progress [OF False ind pass] have "msr chunks' < msr chunks" .
      from less.IH [OF this] st notbrk
      obtain r where "wrap_loop w chunks' lines' = Some r" "Q r" by auto
      with pass False notbrk show ?thesis
        by (subst wrap_loop.simps) simp
    qed
  qed
qed

lemma len_append: "len (a @ b) = len a + len b"
  by (simp add: len_def)

lemma set_pass_chunks: "set (pass_chunks w chunks lines) \<subseteq> set chunks"
  by (cases chunks) (auto simp: pass_chunks_def)

lemma wrap_pass_unlimited:
  assumes "max_lines w = None" "wrap_pass w chunks lines = (brk, chunks', lines')"
  shows "\<exists>cl4 n4. current_line w (width w - len (pass_indent w lines)) (pass_chunks w chunks lines)
                     = (chunks', cl4, n4)
                 \<and> \<not> brk
                 \<and> lines' = (if cl4 = [] then lines else lines @ [pass_indent w lines @ concat cl4])"
  using assms by (auto simp: wrap_pass_def Let_def split: prod.splits if_splits)

lemma wrap_loop_line_ok:
  assumes ind: "len (initial_indent w) < width w" "len (subsequent_indent w) < width w"
      and ml: "max_lines w = None"
  shows "\<exists>lines. wrap_loop w chunks0 [] = Some lines \<and> (\<forall>l \<in> set lines. line_ok w chunks0 l)"
proof (rule wrap_loop_rule [OF ind,
         where I = "\<lambda>chunks lines. (\<not> break_long_words w \<longrightarrow> set chunks \<subseteq> set chunks0)
                                   \<and> (\<forall>l \<in> set lines. line_ok w chunks0 l)"
           and Q = "\<lambda>lines. \<forall>l \<in> set lines. line_ok w chunks0 l"])
  show "(\<not> break_long_words w \<longrightarrow> set chunks0 \<subseteq> set chunks0) \<and> (\<forall>l \<in> set []. line_ok w chunks0 l)"
    by simp
next
  fix lines
  assume "(\<not> break_long_words w \<longrightarrow> set [] \<subseteq> set chunks0) \<and> (\<forall>l \<in> set lines. line_ok w chunks0 l)"
  then show "\<forall>l \<in> set lines. line_ok w chunks0 l" by simp
next
  fix chunks lines brk chunks' lines'
  assume inv: "(\<not> break_long_words w \<longrightarrow> set chunks \<subseteq> set chunks0)
               \<and> (\<forall>l \<in> set lines. line_ok w chunks0 l)"
     and ne: "chunks \<noteq> []"
     and pass: "wrap_pass w chunks lines = (brk, chunks', lines')"
  let ?ind = "pass_indent w lines"
  let ?wd = "width w - len ?ind"
  let ?c1 = "pass_chunks w chunks lines"
  from wrap_pass_unlimited [OF ml pass] obtain cl4 n4 where
    cur: "current_line w ?wd ?c1 = (chunks', cl4, n4)" and nb: "\<not> brk"
    and l': "lines' = (if cl4 = [] then lines else lines @ [?ind @ concat cl4])"
    by blast
  have wd: "1 \<le> ?wd" using ind by (rule short_indents_width)
  have sub: "\<not> break_long_words w \<longrightarrow> set chunks' \<subseteq> set chunks0"
    using current_line_facts(4) [OF wd cur] set_pass_chunks [of w chunks lines] inv by blast
  have new: "line_ok w chunks0 (?ind @ concat cl4)"
  proof -
    from current_line_facts(3) [OF wd cur]
    show ?thesis
    proof
      assume "total_len cl4 \<le> ?wd"
      then show ?thesis by (simp add: line_ok_def len_append total_len_concat)
    next
      assume a: "\<not> break_long_words w \<and> (\<exists>c. cl4 = [c] \<and> c \<in> set ?c1 \<and> ?wd < len c)"
      then obtain c where c: "cl4 = [c]" "c \<in> set ?c1" by blast
      then have "c \<in> set chunks0" using set_pass_chunks [of w chunks lines] inv a by blast
      with c a show ?thesis by (auto simp: line_ok_def pass_indent_def)
    qed
  qed
  from sub new l' inv nb
  show "if brk then \<forall>l \<in> set lines'. line_ok w chunks0 l
        else (\<not> break_long_words w \<longrightarrow> set chunks' \<subseteq> set chunks0)
             \<and> (\<forall>l \<in> set lines'. line_ok w chunks0 l)"
    by auto
qed


text \<open>
  Claim C1, as amended. For every text \<open>T\<close> and every formatter of width \<open>W\<close> whose two
  indents are shorter than \<open>W\<close>, \<open>wrap(T)\<close> returns, and every line it returns has length at
  most \<open>W\<close>, except that with the long-word-breaking flag disabled a line may be an indent
  followed by a single chunk of the text that is too long.
\<close>

theorem wrap_lines_within_width:
  assumes "len ii < W" "len si < W"
  shows "\<exists>lines. wrap (TextFormatter_init W ii si et rw fse blw boh) T = Some (Inr lines)
           \<and> (\<forall>l \<in> set lines.
                 len l \<le> W
                 \<or> (\<not> blw
                     \<and> (\<exists>c \<in> set (text_chunks (wrapper (TextFormatter_init W ii si et rw fse blw boh)) T).
                           l = ii @ c \<or> l = si @ c)))"
proof (cases "strip T = []")
  case True
  then show ?thesis by (simp add: wrap_def)
next
  case False
  let ?w = "wrapper (TextFormatter_init W ii si et rw fse blw boh)"
  have f: "width ?w = W" "initial_indent ?w = ii" "subsequent_indent ?w = si"
          "max_lines ?w = None" "break_long_words ?w = blw"
    by (simp_all add: TextFormatter_init_def TextWrapper_default_def)
  have W: "0 < W" using assms(1) by (simp add: len_def)
  from wrap_loop_line_ok [of ?w "text_chunks ?w T"] assms f
  obtain lines where l: "wrap_loop ?w (text_chunks ?w T) [] = Some lines"
      "\<forall>l \<in> set lines. line_ok ?w (text_chunks ?w T) l"
    by auto
  have "wrap (TextFormatter_init W ii si et rw fse blw boh) T = Some (Inr lines)"
    using False W f l(1) by (simp add: wrap_def TextWrapper_wrap_def wrap_chunks_def)
  with l(2) f show ?thesis by (auto simp: line_ok_def)
qed


theorem wrap_lines_within_width_witness:
  "len ([] :: string) < 5
   \<and> wrap (TextFormatter_init 5 [] [] True True False False True) ''Hello wonderful world''
       = Some (Inr [''Hello'', ''wonderful'', ''world''])
   \<and> text_chunks (wrapper (TextFormatter_init 5 [] [] True True False False True))
         ''Hello wonderful world''
       = [''Hello'', '' '', ''wonderful'', '' '', ''world'']"
proof -
  have ind: "len ([] :: string) < 5"
    by code_simp
  have res: "wrap (TextFormatter_init 5 [] [] True True False False True) ''Hello wonderful world''
               = Some (Inr [''Hello'', ''wonderful'', ''world''])"
    by code_simp
  have chunks: "text_chunks (wrapper (TextFormatter_init 5 [] [] True True False False True))
                  ''Hello wonderful world''
                = [''Hello'', '' '', ''wonderful'', '' '', ''world'']"
    by code_simp
  from wrap_lines_within_width [OF ind ind, of True True False False True "''Hello wonderful world''"]
    ind res chunks
  show ?thesis by simp
qed

text \<open>
  Claim C1 as stated fails for an indent that is not shorter than the width: the first line
  is longer than the width although long words are broken.
\<close>

theorem long_indent_counterexample:
  "wrap (TextFormatter_init 3 ''> > > '' [] True True False True True) ''xy''
     = Some (Inr [''> > > x'', ''y''])"
  by code_simp

text \<open>
  With an indent longer than the width the loop need not end: on the text \<open>' x'\<close> the second
  pass leaves the chunk stack and the lines as they were, and \<open>wrap\<close> never returns.
\<close>

lemma stuck_pass: "wrap_pass stuck_wrapper [[], ''x''] [] = (False, [[], ''x''], [])"
  by code_simp

lemma first_pass: "wrap_pass stuck_wrapper ['' '', ''x''] [] = (False, [[], ''x''], [])"
  by code_simp

lemma fixed_pass_never_returns:
  assumes fixed: "wrap_pass w0 cs ls = (False, cs, ls)" and ne: "cs \<noteq> []"
      and ret: "wrap_loop w chunks lines = Some r"
  shows "\<not> (w = w0 \<and> chunks = cs \<and> lines = ls)"
proof (rule wrap_loop.raw_induct
         [where P = "\<lambda>w chunks lines r. \<not> (w = w0 \<and> chunks = cs \<and> lines = ls)",
          OF _ ret])
  fix loop w chunks lines r
  assume ih: "\<And>w chunks lines r. loop w chunks lines = Some r \<Longrightarrow>
                \<not> (w = w0 \<and> chunks = cs \<and> lines = ls)"
     and body: "(if chunks = [] then Some lines
                 else case wrap_pass w chunks lines of
                        (left_by_break, chunks', lines') \<Rightarrow>
                          if left_by_break then Some lines' else loop w chunks' lines') = Some r"
  show "\<not> (w = w0 \<and> chunks = cs \<and> lines = ls)"
  proof
    assume s: "w = w0 \<and> chunks = cs \<and> lines = ls"
    with body ne have "loop w0 cs ls = Some r"
      by (simp add: fixed)
    from ih [OF this] show False by simp
  qed
qed

lemma fixed_pass_loop:
  assumes "wrap_pass w0 cs ls = (False, cs, ls)" and "cs \<noteq> []"
  shows "wrap_loop w0 cs ls = None"
proof (cases "wrap_loop w0 cs ls")
  case None
  then show ?thesis .
next
  case (Some r)
  from fixed_pass_never_returns [OF assms Some] show ?thesis by simp
qed

lemma stuck_loop: "wrap_loop stuck_wrapper [[], ''x''] [] = None"
  by (rule fixed_pass_loop [OF stuck_pass]) simp

lemma wrap_does_not_return:
  "wrap (TextFormatter_init 1 ''ab'' [] True True False True True) '' x'' = None"
proof -
  have c: "text_chunks stuck_wrapper '' x'' = ['' '', ''x'']" by code_simp
  have s: "strip '' x'' \<noteq> []" by code_simp
  have w: "width stuck_wrapper = 1" "max_lines stuck_wrapper = None" by code_simp+
  have "wrap_loop stuck_wrapper ['' '', ''x''] [] = None"
    by (subst wrap_loop.simps) (simp add: first_pass stuck_loop)
  with c s w show ?thesis
    by (simp add: wrap_def TextWrapper_wrap_def wrap_chunks_def stuck_wrapper_def [symmetric])
qed

subsection \<open>The single line of \<open>shorten\<close>\<close>

lemma total_len_rev: "total_len (rev cs) = total_len cs"
  by (induction cs) simp_all

lemma place_placeholder_bound:
  "place_placeholder ph wd rcl n = Some cl5 \<Longrightarrow> n = total_len rcl \<Longrightarrow> total_len cl5 \<le> wd"
proof (induction rcl arbitrary: n)
  case Nil
  then show ?case by simp
next
  case (Cons c rcs)
  show ?case
  proof (cases "strip c \<noteq> [] \<and> n + len ph \<le> wd")
    case True
    with Cons.prems have "cl5 = rev (c # rcs) @ [ph]" by simp
    then have "total_len cl5 = total_len (c # rcs) + len ph"
      by (simp add: total_len_rev)
    with True Cons.prems(2) show ?thesis by simp
  next
    case False
    with Cons.prems have "place_placeholder ph wd rcs (n - len c) = Some cl5" by auto
    moreover have "n - len c = total_len rcs" using Cons.prems(2) by simp
    ultimately show ?thesis by (rule Cons.IH)
  qed
qed

lemma shorten_wrapper_fields:
  "width (shorten_wrapper W P) = W" "initial_indent (shorten_wrapper W P) = []"
  "subsequent_indent (shorten_wrapper W P) = []" "max_lines (shorten_wrapper W P) = Some 1"
  "placeholder (shorten_wrapper W P) = P" "drop_whitespace (shorten_wrapper W P)"
  by (simp_all add: shorten_wrapper_def TextWrapper_default_def)

lemma shorten_pass:
  assumes W: "0 < W" and P: "len (lstrip P) \<le> W"
      and inv: "one_short_line W lines
                \<and> (lines \<noteq> [] \<longrightarrow> chunks = [] \<or> (length chunks = 1 \<and> strip (hd chunks) = []))"
      and ne: "chunks \<noteq> []"
      and pass: "wrap_pass (shorten_wrapper W P) chunks lines = (brk, chunks', lines')"
  shows "if brk then one_short_line W lines'
         else one_short_line W lines'
              \<and> (lines' \<noteq> [] \<longrightarrow> chunks' = [] \<or> (length chunks' = 1 \<and> strip (hd chunks') = []))"
proof (cases "lines = []")
  case False
  with inv ne obtain c where c: "chunks = [c]" "strip c = []"
    by (cases chunks) auto
  then have "pass_chunks (shorten_wrapper W P) chunks lines = []"
    using False by (simp add: pass_chunks_def shorten_wrapper_fields)
  with pass have "brk = False" "chunks' = []" "lines' = lines"
    by (simp_all add: wrap_pass_def current_line_Nil Let_def)
  with inv show ?thesis by simp
next
  case True
  let ?w = "shorten_wrapper W P"
  have pc: "pass_chunks ?w chunks lines = chunks" "pass_indent ?w lines = []"
    using True by (simp_all add: pass_chunks_def pass_indent_def shorten_wrapper_fields)
  obtain chunks3 cl4 n4 where cur: "current_line ?w W chunks = (chunks3, cl4, n4)"
    by (cases "current_line ?w W chunks") auto
  have wd: "1 \<le> W" using W by simp
  have n4: "n4 = total_len cl4" using current_line_facts(1) [OF wd cur] .
  let ?fits = "(chunks3 = [] \<or> (length chunks3 = 1 \<and> strip (hd chunks3) = [])) \<and> n4 \<le> W"
  have unfolded: "wrap_pass ?w chunks lines =
          (if cl4 = [] then (False, chunks3, [])
           else if ?fits then (False, chunks3, [concat cl4])
           else (case place_placeholder P W (rev cl4) n4 of
                   Some cl5 \<Rightarrow> (True, chunks3, [concat cl5])
                 | None \<Rightarrow> (True, chunks3, [lstrip P])))"
    using True cur pc
    by (simp add: wrap_pass_def Let_def shorten_wrapper_fields len_def split: option.splits)
  show ?thesis
  proof (cases "cl4 = []")
    case True
    with pass unfolded show ?thesis by (auto simp: one_short_line_def)
  next
    case nonempty: False
    show ?thesis
    proof (cases ?fits)
      case True
      with pass unfolded nonempty n4 show ?thesis
        by (auto simp: one_short_line_def total_len_concat)
    next
      case False
      show ?thesis
      proof (cases "place_placeholder P W (rev cl4) n4")
        case None
        with pass unfolded nonempty False P show ?thesis
          by (auto simp: one_short_line_def)
      next
        case (Some cl5)
        from place_placeholder_bound [OF Some] n4 have "total_len cl5 \<le> W"
          by (simp add: total_len_rev)
        with pass unfolded nonempty False Some show ?thesis
          by (auto simp: one_short_line_def total_len_concat)
      qed
    qed
  qed
qed

lemma shorten_loop:
  assumes W: "0 < W" and P: "len (lstrip P) \<le> W"
  shows "\<exists>lines. wrap_loop (shorten_wrapper W P) chunks0 [] = Some lines \<and> one_short_line W lines"
proof (rule wrap_loop_rule
         [where I = "\<lambda>chunks lines. one_short_line W lines
                       \<and> (lines \<noteq> [] \<longrightarrow> chunks = [] \<or> (length chunks = 1 \<and> strip (hd chunks) = []))"
            and Q = "one_short_line W"])
  show "len (initial_indent (shorten_wrapper W P)) < width (shorten_wrapper W P)"
    using W by (simp add: shorten_wrapper_fields len_def)
  show "len (subsequent_indent (shorten_wrapper W P)) < width (shorten_wrapper W P)"
    using W by (simp add: shorten_wrapper_fields len_def)
  show "one_short_line W [] \<and> ([] \<noteq> [] \<longrightarrow> chunks0 = [] \<or> (length chunks0 = 1 \<and> strip (hd chunks0) = []))"
    by (simp add: one_short_line_def)
next
  fix lines
  assume "one_short_line W lines
          \<and> (lines \<noteq> [] \<longrightarrow> [] = [] \<or> (length ([]::string list) = 1 \<and> strip (hd []) = []))"
  then show "one_short_line W lines" by simp
next
  fix chunks lines brk chunks' lines'
  assume "one_short_line W lines
          \<and> (lines \<noteq> [] \<longrightarrow> chunks = [] \<or> (length chunks = 1 \<and> strip (hd chunks) = []))"
     and "chunks \<noteq> []"
     and "wrap_pass (shorten_wrapper W P) chunks lines = (brk, chunks', lines')"
  from shorten_pass [OF W P this]
  show "if brk then one_short_line W lines'
        else one_short_line W lines'
             \<and> (lines' \<noteq> [] \<longrightarrow> chunks' = [] \<or> (length chunks' = 1 \<and> strip (hd chunks') = []))" .
qed

lemma one_short_line_join:
  assumes "one_short_line W lines" "0 < W"
  shows "len (join [NL] lines) \<le> W"
proof (cases lines)
  case Nil
  with assms(2) show ?thesis by (simp add: len_def)
next
  case (Cons l ls)
  with assms(1) have "ls = []" "len l \<le> W" by (simp_all add: one_short_line_def)
  with Cons show ?thesis by simp
qed


text \<open>
  Claim C2, as amended. For every text \<open>T\<close>, every width \<open>W > 0\<close> and every placeholder \<open>P\<close>
  that without its leading whitespace is no longer than \<open>W\<close>, \<open>shorten(T, W, P)\<close> returns
  a string of length at most \<open>W\<close>; for every other width and placeholder it raises
  \<open>ValueError\<close>.
\<close>

theorem shorten_within_width:
  "(0 < W \<and> len (lstrip P) \<le> W \<longrightarrow> (\<exists>s. shorten f T W P = Some (Inr s) \<and> len s \<le> W))
   \<and> (\<not> (0 < W \<and> len (lstrip P) \<le> W) \<longrightarrow> shorten f T W P = Some (Inl ValueError))"
proof -
  let ?chunks = "text_chunks (shorten_wrapper W P) (join '' '' (split_ws (strip T)))"
  have sh: "shorten f T W P
              = map_option (map_sum id (join [NL])) (wrap_chunks (shorten_wrapper W P) ?chunks)"
    by (simp add: shorten_def textwrap_shorten_def TextWrapper_fill_def TextWrapper_wrap_def)
  have wc: "wrap_chunks (shorten_wrapper W P) ?chunks
              = (if W \<le> 0 \<or> len (lstrip P) > W then Some (Inl ValueError)
                 else map_option Inr (wrap_loop (shorten_wrapper W P) ?chunks []))"
    by (auto simp: wrap_chunks_def shorten_wrapper_fields len_def)
  show ?thesis
  proof (cases "0 < W \<and> len (lstrip P) \<le> W")
    case False
    then show ?thesis using sh wc by auto
  next
    case True
    then have W: "0 < W" and P: "len (lstrip P) \<le> W" by simp_all
    from shorten_loop [OF W P, of ?chunks] obtain lines where
      l: "wrap_loop (shorten_wrapper W P) ?chunks [] = Some lines" "one_short_line W lines"
      by blast
    have "shorten f T W P = Some (Inr (join [NL] lines))"
      using sh wc l(1) True by simp
    with one_short_line_join [OF l(2) W] True show ?thesis by simp
  qed
qed
theorem shorten_within_width_witness:
  "(0 :: int) < 10 \<and> len (lstrip ''...'') \<le> 10
   \<and> shorten (TextFormatter_init 80 [] [] True True False True True)
        ''This is a very long sentence'' 10 ''...'' = Some (Inr ''This is...'')
   \<and> len ''This is...'' \<le> 10"
proof -
  have W: "(0 :: int) < 10 \<and> len (lstrip ''...'') \<le> 10"
    by code_simp
  have res: "shorten (TextFormatter_init 80 [] [] True True False True True)
               ''This is a very long sentence'' 10 ''...'' = Some (Inr ''This is...'')"
    by code_simp
  from shorten_within_width [of 10 "''...''" "TextFormatter_init 80 [] [] True True False True True"
         "''This is a very long sentence''"] W res
  show ?thesis by simp
qed

text \<open>
  Claim C2 as stated fails where \<open>shorten\<close> returns no string: with the driver's
  placeholder \<open>...\<close> and the width 2, it raises \<open>ValueError\<close>.
\<close>

theorem shorten_narrow_counterexample:
  "shorten (TextFormatter_init 80 [] [] True True False True True)
     ''This is a very long sentence'' 2 ''...'' = Some (Inl ValueError)"
  by code_simp

subsection \<open>Paragraphs\<close>

lemma split_acc_blank_Nil: "split_acc [NL, NL] cur (NL # NL # s) = cur # split_acc [NL, NL] [] s"
  by simp

lemma split_acc_sealed:
  "sealed p \<Longrightarrow> split_acc [NL, NL] cur (p @ NL # NL # s) = (cur @ p) # split_acc [NL, NL] [] s"
proof (induction p arbitrary: cur rule: sealed.induct)
  case 1
  show ?case by simp
next
  case (2 c)
  then show ?case by simp
next
  case (3 a b cs)
  then have nb: "\<not> (a = NL \<and> b = NL)" and s: "sealed (b # cs)" by simp_all
  have "split_acc [NL, NL] cur ((a # b # cs) @ NL # NL # s)
          = split_acc [NL, NL] (cur @ [a]) ((b # cs) @ NL # NL # s)"
    using nb by auto
  also have "\<dots> = ((cur @ [a]) @ (b # cs)) # split_acc [NL, NL] [] s"
    using s by (rule "3.IH")
  finally show ?case by simp
qed

lemma split_acc_sealed_last:
  "sealed p \<Longrightarrow> split_acc [NL, NL] cur p = [cur @ p]"
proof (induction p arbitrary: cur rule: sealed.induct)
  case 1
  show ?case by simp
next
  case (2 c)
  then show ?case by simp
next
  case (3 a b cs)
  then have nb: "\<not> (a = NL \<and> b = NL)" and s: "sealed (b # cs)" by simp_all
  have "split_acc [NL, NL] cur (a # b # cs) = split_acc [NL, NL] (cur @ [a]) (b # cs)"
    using nb by auto
  also have "\<dots> = [(cur @ [a]) @ (b # cs)]"
    using s by (rule "3.IH")
  finally show ?case by simp
qed

lemma split_join_paragraphs:
  "ps \<noteq> [] \<Longrightarrow> \<forall>p \<in> set ps. sealed p \<Longrightarrow> split_on [NL, NL] (join [NL, NL] ps) = ps"
proof (induction "[NL, NL]" ps rule: join.induct)
  case 1
  then show ?case by simp
next
  case (2 p)
  then show ?case by (simp add: split_on_def split_acc_sealed_last)
next
  case (3 p q ps)
  have "split_acc [NL, NL] [] (p @ NL # NL # join [NL, NL] (q # ps))
          = p # split_acc [NL, NL] [] (join [NL, NL] (q # ps))"
    using 3 split_acc_sealed [of p "[]"] by simp
  with 3 show ?case by (simp add: split_on_def)
qed

lemma split_acc_nonempty: "split_acc sep cur s \<noteq> []"
  by (induction sep cur s rule: split_acc.induct) auto

lemma sealed_no_NL: "NL \<notin> set l \<Longrightarrow> sealed l"
  by (induction l rule: sealed.induct) auto

lemma sealed_line_append:
  "NL \<notin> set l \<Longrightarrow> l \<noteq> [] \<Longrightarrow> sealed (c # r) \<Longrightarrow> c \<noteq> NL \<Longrightarrow> sealed (l @ NL # c # r)"
proof (induction l rule: sealed.induct)
  case 1
  then show ?case by simp
next
  case (2 a)
  then show ?case by simp
next
  case (3 a b cs)
  then show ?case by auto
qed

lemma sealed_join_lines:
  "\<forall>l \<in> set lines. l \<noteq> [] \<and> NL \<notin> set l \<Longrightarrow> sealed (join [NL] lines)"
proof (induction "[NL]" lines rule: join.induct)
  case 1
  show ?case by simp
next
  case (2 p)
  then show ?case by (simp add: sealed_no_NL)
next
  case (3 p q ps)
  then have s: "sealed (join [NL] (q # ps))" by simp
  from 3 obtain c r where q: "q = c # r" "c \<noteq> NL" by (cases q) auto
  then obtain r' where j: "join [NL] (q # ps) = c # r'"
    by (cases ps) auto
  from 3 have "NL \<notin> set p" "p \<noteq> []" by simp_all
  from sealed_line_append [OF this, of c r'] s j q(2) show ?case by simp
qed

lemma concat_wordsep_split_from: "concat (wordsep_split_from behind t) = t"
  by (induction behind t rule: wordsep_split_from.induct) (simp_all add: Let_def)

lemma concat_wordsep_simple_split: "concat (wordsep_simple_split t) = t"
  by (induction t) (auto split: list.splits)

lemma fix_sentence_endings_chars:
  "set (concat (fix_sentence_endings_chunks cs)) \<subseteq> insert SP (set (concat cs))"
  by (induction cs rule: fix_sentence_endings_chunks.induct) auto

lemma fix_sentence_endings_nonempty:
  "\<forall>c \<in> set cs. c \<noteq> [] \<Longrightarrow> \<forall>c \<in> set (fix_sentence_endings_chunks cs). c \<noteq> []"
  by (induction cs rule: fix_sentence_endings_chunks.induct) auto

lemma munge_whitespace_no_NL:
  "replace_whitespace w \<Longrightarrow> NL \<notin> set (munge_whitespace w t)"
  by (auto simp: munge_whitespace_def Let_def is_ws_def)

lemma split_chunks_chars:
  "set (concat (split_chunks w t)) \<subseteq> set (munge_whitespace w t)"
proof -
  have "set (concat (filter (\<lambda>c. c \<noteq> []) cs)) \<subseteq> set (concat cs)" for cs :: "string list"
    by auto
  then show ?thesis
    using concat_wordsep_split_from [of "[]" "munge_whitespace w t"]
          concat_wordsep_simple_split [of "munge_whitespace w t"]
    by (simp add: split_chunks_def wordsep_split_def Let_def del: set_concat)
       (metis (no_types, lifting))
qed

lemma text_chunks_clean:
  assumes "replace_whitespace w"
  shows "NL \<notin> set (concat (text_chunks w t)) \<and> (\<forall>c \<in> set (text_chunks w t). c \<noteq> [])"
proof -
  have ne: "\<forall>c \<in> set (split_chunks w t). c \<noteq> []"
    by (simp add: split_chunks_def Let_def)
  have nl: "NL \<notin> set (concat (split_chunks w t))"
    using split_chunks_chars [of w t] munge_whitespace_no_NL [OF assms, of t] by blast
  show ?thesis
  proof (cases "fix_sentence_endings w")
    case False
    with ne nl show ?thesis by (simp add: text_chunks_def Let_def)
  next
    case True
    have "NL \<notin> set (concat (fix_sentence_endings_chunks (split_chunks w t)))"
      using fix_sentence_endings_chars [of "split_chunks w t"] nl by auto
    with True fix_sentence_endings_nonempty [OF ne] show ?thesis
      by (simp add: text_chunks_def Let_def)
  qed
qed

lemma pass_chunks_clean:
  "NL \<notin> set (concat chunks) \<Longrightarrow> \<forall>c \<in> set chunks. c \<noteq> [] \<Longrightarrow>
   NL \<notin> set (concat (pass_chunks w chunks lines)) \<and> (\<forall>c \<in> set (pass_chunks w chunks lines). c \<noteq> [])"
  by (cases chunks) (auto simp: pass_chunks_def)

lemma wrap_loop_clean:
  assumes ind: "len (initial_indent w) < width w" "len (subsequent_indent w) < width w"
      and nl: "NL \<notin> set (initial_indent w)" "NL \<notin> set (subsequent_indent w)"
      and ml: "max_lines w = None" and dw: "drop_whitespace w"
      and c0: "NL \<notin> set (concat chunks0)" "\<forall>c \<in> set chunks0. c \<noteq> []"
  shows "\<exists>lines. wrap_loop w chunks0 [] = Some lines \<and> clean_lines lines"
proof (rule wrap_loop_rule [OF ind,
         where I = "\<lambda>chunks lines. NL \<notin> set (concat chunks) \<and> (\<forall>c \<in> set chunks. c \<noteq> [])
                                   \<and> clean_lines lines"
           and Q = clean_lines])
  show "NL \<notin> set (concat chunks0) \<and> (\<forall>c \<in> set chunks0. c \<noteq> []) \<and> clean_lines []"
    using c0 by (simp add: clean_lines_def)
next
  fix lines
  assume "NL \<notin> set (concat []) \<and> (\<forall>c \<in> set ([] :: string list). c \<noteq> []) \<and> clean_lines lines"
  then show "clean_lines lines" by simp
next
  fix chunks lines brk chunks' lines'
  assume inv: "NL \<notin> set (concat chunks) \<and> (\<forall>c \<in> set chunks. c \<noteq> []) \<and> clean_lines lines"
     and ne: "chunks \<noteq> []"
     and pass: "wrap_pass w chunks lines = (brk, chunks', lines')"
  let ?ind = "pass_indent w lines"
  let ?wd = "width w - len ?ind"
  let ?c1 = "pass_chunks w chunks lines"
  from wrap_pass_unlimited [OF ml pass] obtain cl4 n4 where
    cur: "current_line w ?wd ?c1 = (chunks', cl4, n4)" and nb: "\<not> brk"
    and l': "lines' = (if cl4 = [] then lines else lines @ [?ind @ concat cl4])"
    by blast
  have wd: "1 \<le> ?wd" using ind by (rule short_indents_width)
  from pass_chunks_clean [of chunks w lines] inv
  have c1: "NL \<notin> set (concat ?c1)" "\<forall>c \<in> set ?c1. c \<noteq> []" by simp_all
  have c3: "NL \<notin> set (concat chunks')" "\<forall>c \<in> set chunks'. c \<noteq> []"
    using current_line_facts(6) [OF wd cur] current_line_facts(7) [OF wd cur c1(2)] c1(1)
    by blast+
  have l4: "NL \<notin> set (concat cl4)" "\<forall>c \<in> set cl4. c \<noteq> []"
    using current_line_facts(5) [OF wd cur] current_line_facts(8) [OF wd cur c1(2) dw] c1(1)
    by blast+
  have indnl: "NL \<notin> set ?ind" using nl by (simp add: pass_indent_def)
  have new: "cl4 \<noteq> [] \<Longrightarrow> ?ind @ concat cl4 \<noteq> [] \<and> NL \<notin> set (?ind @ concat cl4)"
    using l4 indnl by (cases cl4) auto
  have "clean_lines lines'"
    using inv l' new by (auto simp: clean_lines_def)
  with c3 nb
  show "if brk then clean_lines lines'
        else NL \<notin> set (concat chunks') \<and> (\<forall>c \<in> set chunks'. c \<noteq> []) \<and> clean_lines lines'"
    by simp
qed

lemma fill_sealed:
  assumes "len ii < W" "len si < W" "NL \<notin> set ii" "NL \<notin> set si"
  shows "\<exists>s. fill (TextFormatter_init W ii si et True fse blw boh) p = Some (Inr s) \<and> sealed s"
proof (cases "strip p = []")
  case True
  then show ?thesis by (simp add: fill_def)
next
  case False
  let ?w = "wrapper (TextFormatter_init W ii si et True fse blw boh)"
  have f: "width ?w = W" "initial_indent ?w = ii" "subsequent_indent ?w = si"
          "max_lines ?w = None" "drop_whitespace ?w" "replace_whitespace ?w"
    by (simp_all add: TextFormatter_init_def TextWrapper_default_def)
  have W: "0 < W" using assms(1) by (simp add: len_def)
  from text_chunks_clean [OF f(6), of p]
  have c0: "NL \<notin> set (concat (text_chunks ?w p))" "\<forall>c \<in> set (text_chunks ?w p). c \<noteq> []"
    by simp_all
  from wrap_loop_clean [of ?w "text_chunks ?w p"] assms f c0
  obtain lines where l: "wrap_loop ?w (text_chunks ?w p) [] = Some lines" "clean_lines lines"
    by auto
  have "fill (TextFormatter_init W ii si et True fse blw boh) p = Some (Inr (join [NL] lines))"
    using False W f l(1)
    by (simp add: fill_def TextWrapper_fill_def TextWrapper_wrap_def wrap_chunks_def)
  moreover have "sealed (join [NL] lines)"
    using l(2) by (intro sealed_join_lines) (simp add: clean_lines_def)
  ultimately show ?thesis by blast
qed

lemma format_paragraph_list_sealed:
  assumes "len ii < W" "len si < W" "NL \<notin> set ii" "NL \<notin> set si"
  shows "\<exists>fps. format_paragraph_list (TextFormatter_init W ii si et True fse blw boh) paras
                  = Some (Inr fps)
               \<and> list_all2 (formatted_as (TextFormatter_init W ii si et True fse blw boh)) paras fps
               \<and> (\<forall>fp \<in> set fps. sealed fp)"
proof (induction paras)
  case Nil
  show ?case by simp
next
  case (Cons para paras)
  let ?f = "TextFormatter_init W ii si et True fse blw boh"
  from Cons obtain fps where
    r: "format_paragraph_list ?f paras = Some (Inr fps)" "list_all2 (formatted_as ?f) paras fps"
       "\<forall>fp \<in> set fps. sealed fp"
    by blast
  show ?case
  proof (cases "strip para = []")
    case True
    then have "formatted_as ?f para []" by (simp add: formatted_as_def)
    with r True show ?thesis by simp
  next
    case False
    from fill_sealed [OF assms, of et fse blw boh "strip para"]
    obtain s where s: "fill ?f (strip para) = Some (Inr s)" "sealed s" by blast
    with False have "formatted_as ?f para s" by (simp add: formatted_as_def)
    with r s False show ?thesis by simp
  qed
qed


text \<open>
  Claim C5, as amended. For every text \<open>T\<close> and every formatter that replaces whitespace and
  has indents without line feeds and shorter than its width, \<open>format_paragraphs(T)\<close> returns;
  it splits \<open>T\<close> at every two consecutive line feeds, puts the empty string for a paragraph
  that is empty or all whitespace and \<open>fill\<close> of the stripped paragraph for every other
  one, and joins the results with a blank line, so that splitting the output in the same way
  gives the formatted paragraphs back: the same count, in the same order.
\<close>

theorem format_paragraphs_keeps_paragraphs:
  assumes "len ii < W" "len si < W" "NL \<notin> set ii" "NL \<notin> set si"
  shows "\<exists>fps. format_paragraphs (TextFormatter_init W ii si et True fse blw boh) T
                  = Some (Inr (join [NL, NL] fps))
               \<and> list_all2 (formatted_as (TextFormatter_init W ii si et True fse blw boh))
                    (split_on [NL, NL] T) fps
               \<and> split_on [NL, NL] (join [NL, NL] fps) = fps
               \<and> length fps = length (split_on [NL, NL] T)"
proof -
  let ?f = "TextFormatter_init W ii si et True fse blw boh"
  from format_paragraph_list_sealed [OF assms, of et fse blw boh "split_on [NL, NL] T"]
  obtain fps where
    r: "format_paragraph_list ?f (split_on [NL, NL] T) = Some (Inr fps)"
       "list_all2 (formatted_as ?f) (split_on [NL, NL] T) fps" "\<forall>fp \<in> set fps. sealed fp"
    by blast
  have len: "length fps = length (split_on [NL, NL] T)"
    using r(2) by (simp add: list_all2_lengthD)
  have "split_on [NL, NL] T \<noteq> []"
    by (simp add: split_on_def split_acc_nonempty)
  with len have "fps \<noteq> []" by auto
  from split_join_paragraphs [OF this r(3)] r(1,2) len show ?thesis
    by (auto simp: format_paragraphs_def)
qed
theorem format_paragraphs_keeps_paragraphs_witness:
  "len ([] :: string) < 5
   \<and> format_paragraphs (TextFormatter_init 5 [] [] True True False True True)
        (''Hello   world'' @ [NL, NL, NL, NL] @ ''  foo bar baz  '' @ [NL, NL] @ '' '' @ [NL, NL] @ ''x'')
       = Some (Inr (''Hello'' @ [NL] @ ''world'' @ [NL, NL, NL, NL] @ ''foo'' @ [NL] @ ''bar'' @ [NL] @ ''baz'' @ [NL, NL, NL, NL] @ ''x''))
   \<and> split_on [NL, NL]
        (''Hello   world'' @ [NL, NL, NL, NL] @ ''  foo bar baz  '' @ [NL, NL] @ '' '' @ [NL, NL] @ ''x'')
       = [''Hello   world'', [], ''  foo bar baz  '', '' '', ''x'']
   \<and> split_on [NL, NL]
        (''Hello'' @ [NL] @ ''world'' @ [NL, NL, NL, NL] @ ''foo'' @ [NL] @ ''bar'' @ [NL] @ ''baz'' @ [NL, NL, NL, NL] @ ''x'')
       = [''Hello'' @ [NL] @ ''world'', [], ''foo'' @ [NL] @ ''bar'' @ [NL] @ ''baz'', [], ''x'']"
proof -
  have ind: "len ([] :: string) < 5"
    by code_simp
  have nl: "NL \<notin> set ([] :: string)"
    by simp
  have res: "format_paragraphs (TextFormatter_init 5 [] [] True True False True True)
        (''Hello   world'' @ [NL, NL, NL, NL] @ ''  foo bar baz  '' @ [NL, NL] @ '' '' @ [NL, NL] @ ''x'')
       = Some (Inr (''Hello'' @ [NL] @ ''world'' @ [NL, NL, NL, NL] @ ''foo'' @ [NL] @ ''bar'' @ [NL] @ ''baz'' @ [NL, NL, NL, NL] @ ''x''))"
    by code_simp
  have inp: "split_on [NL, NL]
        (''Hello   world'' @ [NL, NL, NL, NL] @ ''  foo bar baz  '' @ [NL, NL] @ '' '' @ [NL, NL] @ ''x'')
       = [''Hello   world'', [], ''  foo bar baz  '', '' '', ''x'']"
    by code_simp
  have out: "split_on [NL, NL]
        (''Hello'' @ [NL] @ ''world'' @ [NL, NL, NL, NL] @ ''foo'' @ [NL] @ ''bar'' @ [NL] @ ''baz'' @ [NL, NL, NL, NL] @ ''x'')
       = [''Hello'' @ [NL] @ ''world'', [], ''foo'' @ [NL] @ ''bar'' @ [NL] @ ''baz'', [], ''x'']"
    by code_simp
  from format_paragraphs_keeps_paragraphs
         [OF ind ind nl nl, of True False True True
            "''Hello   world'' @ [NL, NL, NL, NL] @ ''  foo bar baz  '' @ [NL, NL] @ '' '' @ [NL, NL] @ ''x''"]
    ind res inp out
  show ?thesis by simp
qed

text \<open>
  Claim C5 as stated fails in two ways. The driver's formatter does not apply \<open>fill\<close> to a
  paragraph, but to the paragraph without its surrounding whitespace, and \<open>fill\<close> keeps
  whitespace at the start of a text. A formatter that does not replace whitespace can
  return a paragraph with a blank line inside, so that its output has more paragraphs than
  its input.
\<close>

theorem format_paragraphs_counterexample:
  "format_paragraphs (TextFormatter_init 80 [] [] True True False True True) '' a'' = Some (Inr ''a'')
   \<and> fill (TextFormatter_init 80 [] [] True True False True True) '' a'' = Some (Inr '' a'')
   \<and> format_paragraphs (TextFormatter_init 3 [] [] True False False True True)
        (''ab'' @ [NL] @ ''cdefgh'')
       = Some (Inr (''ab'' @ [NL, NL] @ ''cde'' @ [NL] @ ''fgh''))
   \<and> split_on [NL, NL] (''ab'' @ [NL] @ ''cdefgh'') = [''ab'' @ [NL] @ ''cdefgh'']
   \<and> split_on [NL, NL] (''ab'' @ [NL, NL] @ ''cde'' @ [NL] @ ''fgh'')
       = [''ab'', ''cde'' @ [NL] @ ''fgh'']"
  by code_simp

section \<open>Properties of the driver\<close>

subsection \<open>The transformation applied to a file\<close>

lemma format_content_branch:
  "format_content formatter opts content =
     apply_branch formatter (effective_branch opts)
       (if arg_dedent opts then dedent_text formatter content else content)"
  by (simp add: format_content_def apply_branch_def effective_branch_def Let_def)

lemma effective_branch_requested:
  "arg_shorten opts \<noteq> Some 0 \<Longrightarrow> arg_prefix opts \<noteq> Some [] \<Longrightarrow>
   effective_branch opts = requested_branch opts"
  by (auto simp: effective_branch_def requested_branch_def truthy_int_def truthy_str_def
        int_value_def str_value_def split: option.splits)

text \<open>
  Claim C3, as amended. For every file that is read and every combination of options,
  \<open>format_file\<close> applies dedent first when it is requested, and then exactly one of the four
  branches, by the precedence shorten over preserve-paragraphs over prefix over the default
  fill, where shorten is taken for a width other than zero and prefix for a non-empty string.
  What the branch returns or raises is what \<open>format_file\<close> returns, raises (verbose) or reports.
\<close>

theorem format_file_branch_precedence:
  "read_file file_handler w file_path = Inr content \<Longrightarrow>
   format_file file_path formatter file_handler opts w =
     (case apply_branch formatter (effective_branch opts)
             (if arg_dedent opts then dedent_text formatter content else content) of
        None \<Rightarrow> None
      | Some (Inr formatted) \<Rightarrow> Some (Inr formatted, w)
      | Some (Inl e) \<Rightarrow>
          if arg_verbose opts then Some (Inl e, w)
          else Some (Inr [], w\<lparr>stderr := stderr w @ [Processing_error file_path e]\<rparr>))"
  by (simp add: format_file_def format_content_branch)

theorem format_file_branch_precedence_witness:
  "read_file cli_file_handler w_data ''data/a.txt'' = Inr ''Hello   world''
   \<and> map_option fst
        (format_file ''data/a.txt''
           (cli_formatter (default_options\<lparr>arg_width := 5, arg_dedent := True,
                             arg_shorten := Some 9, arg_preserve_paragraphs := True\<rparr>))
           cli_file_handler
           (default_options\<lparr>arg_width := 5, arg_dedent := True,
              arg_shorten := Some 9, arg_preserve_paragraphs := True\<rparr>) w_data)
     = Some (Inr ''Hello...'')"
proof -
  let ?A = "default_options\<lparr>arg_width := 5, arg_dedent := True,
              arg_shorten := Some 9, arg_preserve_paragraphs := True\<rparr>"
  have rd: "read_file cli_file_handler w_data ''data/a.txt'' = Inr ''Hello   world''"
    by code_simp
  have br: "apply_branch (cli_formatter ?A) (effective_branch ?A)
              (if arg_dedent ?A then dedent_text (cli_formatter ?A) ''Hello   world''
               else ''Hello   world'')
            = Some (Inr ''Hello...'')"
    by code_simp
  from format_file_branch_precedence
         [OF rd, where formatter = "cli_formatter ?A" and opts = ?A] rd br
  show ?thesis by simp
qed

text \<open>
  Claim C3 as stated fails for \<open>--shorten 0\<close>: shorten is requested, and the driver fills the
  text instead; shorten with width 0 would raise \<open>ValueError\<close>.
\<close>

theorem shorten_zero_counterexample:
  "format_content (cli_formatter (default_options\<lparr>arg_shorten := Some 0\<rparr>))
     (default_options\<lparr>arg_shorten := Some 0\<rparr>) ''hello world''
     = Some (Inr ''hello world'')
   \<and> apply_branch (cli_formatter (default_options\<lparr>arg_shorten := Some 0\<rparr>))
       (requested_branch (default_options\<lparr>arg_shorten := Some 0\<rparr>)) ''hello world''
     = Some (Inl ValueError)"
  by code_simp

subsection \<open>Reading a file\<close>

text \<open>
  Claim C6 fails on the code for a file whose bytes do not decode: \<open>read_file\<close> raises
  \<open>TypeError\<close>, not \<open>UnicodeDecodeError\<close>.
\<close>

theorem read_file_undecodable_raises_TypeError:
  "read_file cli_file_handler w_bad ''bad.txt'' = Inl TypeError"
  by code_simp

subsection \<open>The run returns\<close>











subsection \<open>What a pass of the loop does\<close>


lemma deliveries_stderr [simp]: "deliveries (w\<lparr>stderr := e\<rparr>) = deliveries w"
  by (simp add: deliveries_def)

lemma deliveries_report_failure [simp]: "deliveries (report_failure args p e w) = deliveries w"
  by (simp add: report_failure_def)




subsection \<open>What a run leaves behind\<close>















subsection \<open>The exit status\<close>







text \<open>
  With a prefix that is not shorter than the width the run need not return, and then it has
  no exit status: under \<open>-w 1 --prefix "> "\<close>, on a file that holds a space and a letter, the
  wrapping loop takes the space as the piece of a long word, drops it as whitespace at the end
  of the line, and finds the chunk stack as it was.
\<close>

lemma narrow_prefix_pass:
  "wrap_pass (wrapper (TextFormatter_init 1 ''> '' ''> '' True True False True True))
     [[], ''x''] [] = (False, [[], ''x''], [])"
  by code_simp

lemma narrow_prefix_first_pass:
  "wrap_pass (wrapper (TextFormatter_init 1 ''> '' ''> '' True True False True True))
     ['' '', ''x''] [] = (False, [[], ''x''], [])"
  by code_simp

lemma narrow_prefix_fill:
  "fill (TextFormatter_init 1 ''> '' ''> '' True True False True True) '' x'' = None"
proof -
  let ?w = "wrapper (TextFormatter_init 1 ''> '' ''> '' True True False True True)"
  have c: "text_chunks ?w '' x'' = ['' '', ''x'']" by code_simp
  have s: "strip '' x'' \<noteq> []" by code_simp
  have w: "width ?w = 1" "max_lines ?w = None" by code_simp+
  have "wrap_loop ?w [[], ''x''] [] = None"
    by (rule fixed_pass_loop [OF narrow_prefix_pass]) simp
  then have "wrap_loop ?w ['' '', ''x''] [] = None"
    by (subst wrap_loop.simps) (simp add: narrow_prefix_first_pass)
  with c s w show ?thesis
    by (simp add: fill_def TextWrapper_fill_def TextWrapper_wrap_def wrap_chunks_def)
qed

lemma narrow_prefix_run_does_not_return:
  "truthy_str (arg_input narrow_prefix_options) \<and> \<not> prefix_in_width narrow_prefix_options
   \<and> main narrow_prefix_options w_indented = None"
proof -
  have u: "truthy_str (arg_input narrow_prefix_options)"
    by code_simp
  have n: "\<not> prefix_in_width narrow_prefix_options"
    by code_simp
  have f: "cli_formatter narrow_prefix_options = TextFormatter_init 1 [] [] True True False True True"
    by code_simp
  have o: "\<not> arg_dedent narrow_prefix_options" "\<not> truthy_int (arg_shorten narrow_prefix_options)"
      "\<not> arg_preserve_paragraphs narrow_prefix_options" "truthy_str (arg_prefix narrow_prefix_options)"
      "str_value (arg_prefix narrow_prefix_options) = ''> ''"
      "str_value (arg_input narrow_prefix_options) = ''in.txt''"
      "\<not> arg_verbose narrow_prefix_options"
    by code_simp+
  have p: "format_with_prefix (TextFormatter_init 1 [] [] True True False True True) '' x'' ''> ''
             = fill (TextFormatter_init 1 ''> '' ''> '' True True False True True) '' x''"
    by (simp add: format_with_prefix_def TextFormatter_init_def TextWrapper_default_def)
  have c: "format_content (cli_formatter narrow_prefix_options) narrow_prefix_options '' x'' = None"
    using o by (simp add: format_content_def f p narrow_prefix_fill)
  have r: "read_file cli_file_handler w_indented ''in.txt'' = Inr '' x''"
    by code_simp
  have s: "sigint_at w_indented = None"
    by (simp add: w_indented_def)
  have "format_file ''in.txt'' (cli_formatter narrow_prefix_options) cli_file_handler
          narrow_prefix_options w_indented = None"
    by (simp add: format_file_def r c)
  then have "process_file (cli_formatter narrow_prefix_options) cli_file_handler
               narrow_prefix_options 1 0 ''in.txt'' w_indented = None"
    using o(7) s by (simp add: process_file_def)
  then have "run_files narrow_prefix_options w_indented [''in.txt''] = None"
    using o(7) by (simp add: run_files_def)
  with u o(6) have "main narrow_prefix_options w_indented = None"
    by (simp add: main_def)
  with u n show ?thesis by simp
qed

subsection \<open>The explicit output file\<close>

lemma format_content_output_file:
  "format_content fmt (args\<lparr>arg_output_file := x\<rparr>) c = format_content fmt args c"
  by (simp add: format_content_def Let_def cong: if_cong)

lemma format_file_output_file:
  "format_file p fmt h (args\<lparr>arg_output_file := x\<rparr>) w = format_file p fmt h args w"
  by (simp add: format_file_def format_content_output_file
           cong: sum.case_cong option.case_cong if_cong)

lemma write_output_output_file:
  "write_output h (args\<lparr>arg_output_file := x\<rparr>) p out c w = write_output h args p out c w"
  by (simp add: write_output_def report_failure_def cong: sum.case_cong if_cong)

lemma report_failure_output_file:
  "report_failure (args\<lparr>arg_output_file := x\<rparr>) p e w = report_failure args p e w"
  by (simp add: report_failure_def)

lemma process_file_ignores_output_file:
  assumes "n \<noteq> 1"
  shows "process_file fmt h (args\<lparr>arg_output_file := x\<rparr>) n i p w
           = (if sigint_at w = Some i then Some (Interrupt, w\<lparr>stderr := stderr w @ [Interrupted]\<rparr>)
              else
                (let w1 = (if arg_verbose args then w\<lparr>stdout := stdout w @ [Processing p]\<rparr> else w)
                 in case format_file p fmt h args w1 of
                      None \<Rightarrow> None
                    | Some (Inl e, w2) \<Rightarrow> Some (Failed e, report_failure args p e w2)
                    | Some (Inr formatted_content, w2) \<Rightarrow>
                        if formatted_content = [] \<and> \<not> arg_verbose args then Some (Skipped, w2)
                        else if truthy_str (arg_output args) then
                          (case get_output_path h w2 p (arg_output args) ''_formatted'' of
                             Inl e \<Rightarrow> Some (Failed e, report_failure args p e w2)
                           | Inr (output_path, w3) \<Rightarrow>
                               Some (write_output h args p output_path formatted_content w3))
                        else
                          Some (Delivered,
                                w2\<lparr>stdout := stdout w2 @ [Header p, Content formatted_content]\<rparr>)))"
  unfolding process_file_def using assms
  by (simp add: format_file_output_file write_output_output_file report_failure_output_file Let_def
           cong: option.case_cong sum.case_cong prod.case_cong if_cong)

lemma process_file_output_file:
  assumes "n \<noteq> 1"
  shows "process_file fmt h (args\<lparr>arg_output_file := x\<rparr>) n i p w
           = process_file fmt h (args\<lparr>arg_output_file := y\<rparr>) n i p w"
  by (simp only: process_file_ignores_output_file [OF assms])

lemma process_files_output_file:
  assumes "n \<noteq> 1"
  shows "process_files fmt h (args\<lparr>arg_output_file := x\<rparr>) n i fs w c outs
           = process_files fmt h (args\<lparr>arg_output_file := y\<rparr>) n i fs w c outs"
proof (induction fs arbitrary: i w c outs)
  case Nil
  show ?case by simp
next
  case (Cons p rest)
  have pf: "process_file fmt h (args\<lparr>arg_output_file := x\<rparr>) n i p w
              = process_file fmt h (args\<lparr>arg_output_file := y\<rparr>) n i p w"
    using assms by (rule process_file_output_file)
  show ?case
    by (simp add: pf Cons.IH cong: option.case_cong prod.case_cong outcome.case_cong)
qed

text \<open>
  Claim C10. When more than one input file is resolved, a run with an explicit output file
  is the run without that option: the same exit status, the same outcomes, the same output
  and the same files written (to the output directory when one is given, otherwise to
  standard output). No usage error is reported.
\<close>

theorem output_file_ignored_for_several_files:
  assumes "\<not> truthy_str (arg_input args)"
      and "find_text_files cli_file_handler w (str_value (arg_directory args)) None = Inr fs"
      and "1 < length fs"
  shows "main (args\<lparr>arg_output_file := Some f\<rparr>) w = main (args\<lparr>arg_output_file := None\<rparr>) w"
proof -
  have n: "length fs \<noteq> 1" using assms(3) by simp
  have "run_files (args\<lparr>arg_output_file := Some f\<rparr>) w fs
          = run_files (args\<lparr>arg_output_file := None\<rparr>) w fs"
    by (simp add: run_files_def Let_def cli_formatter_def
          process_files_output_file [OF n, where args = args and x = "Some f" and y = None]
          cong: option.case_cong prod.case_cong if_cong)
  with assms show ?thesis
    by (simp add: main_def)
qed

theorem output_file_ignored_for_several_files_witness:
  "find_text_files cli_file_handler w_data ''data'' None = Inr [''data/a.txt'', ''data/b.txt'']
   \<and> main (default_options\<lparr>arg_directory := Some ''data'', arg_output_file := Some ''out.txt''\<rparr>) w_data
     = main (default_options\<lparr>arg_directory := Some ''data'', arg_output_file := None\<rparr>) w_data
   \<and> exit_status (main (default_options\<lparr>arg_directory := Some ''data'',
                           arg_output_file := Some ''out.txt''\<rparr>) w_data) = Some 0
   \<and> run_stdout (main (default_options\<lparr>arg_directory := Some ''data'',
                          arg_output_file := Some ''out.txt''\<rparr>) w_data)
     = Some [Header ''data/a.txt'', Content ''Hello   world'',
             Header ''data/b.txt'', Content ''foo bar'']"
proof -
  let ?A = "default_options\<lparr>arg_directory := Some ''data''\<rparr>"
  have inp: "\<not> truthy_str (arg_input ?A)"
    by code_simp
  have fs: "find_text_files cli_file_handler w_data (str_value (arg_directory ?A)) None
              = Inr [''data/a.txt'', ''data/b.txt'']"
    by code_simp
  have fs': "find_text_files cli_file_handler w_data ''data'' None
               = Inr [''data/a.txt'', ''data/b.txt'']"
    by code_simp
  have st: "exit_status (main (default_options\<lparr>arg_directory := Some ''data'',
                                 arg_output_file := Some ''out.txt''\<rparr>) w_data) = Some 0"
    by code_simp
  have out: "run_stdout (main (default_options\<lparr>arg_directory := Some ''data'',
                                 arg_output_file := Some ''out.txt''\<rparr>) w_data)
               = Some [Header ''data/a.txt'', Content ''Hello   world'',
                       Header ''data/b.txt'', Content ''foo bar'']"
    by code_simp
  from output_file_ignored_for_several_files [OF inp fs, of "''out.txt''"] fs' st out
  show ?thesis by simp
qed

section \<open>Properties of the file handler\<close>

lemma join_append_last:
  "ps \<noteq> [] \<Longrightarrow> join sep (ps @ [n]) = join sep ps @ sep @ n"
  by (induction sep ps rule: join.induct) auto

lemma Path_str_child_inj:
  "Path_str (p\<lparr>parts := parts p @ [n]\<rparr>) = Path_str (p\<lparr>parts := parts p @ [m]\<rparr>) \<Longrightarrow> n = m"
  by (cases "parts p = []") (auto simp: Path_str_def join_append_last)

lemma distinct_matches:
  "distinct names \<Longrightarrow> \<forall>n \<in> set names. length (filter (\<lambda>e. suffix e n) E) \<le> 1 \<Longrightarrow>
   distinct (concat (map (\<lambda>e. filter (\<lambda>n. suffix e n) names) E))"
proof (induction E)
  case Nil
  show ?case by simp
next
  case (Cons e E)
  have rest: "\<forall>n \<in> set names. length (filter (\<lambda>e. suffix e n) E) \<le> 1"
    using Cons.prems(2) by (auto split: if_splits)
  have disj: "n \<in> set names \<Longrightarrow> suffix e n \<Longrightarrow> e' \<in> set E \<Longrightarrow> suffix e' n \<Longrightarrow> False" for n e'
  proof -
    assume n: "n \<in> set names" and e: "suffix e n" and e': "e' \<in> set E" and s: "suffix e' n"
    from e' s have "filter (\<lambda>e. suffix e n) E \<noteq> []"
      by (auto simp: filter_empty_conv)
    then have "0 < length (filter (\<lambda>e. suffix e n) E)" by simp
    with Cons.prems(2) n e show False by auto
  qed
  from Cons.IH [OF Cons.prems(1) rest] Cons.prems(1) disj show ?case
    by auto
qed

lemma glob_concat:
  "concat (map (glob_star w path) E)
     = map (\<lambda>name. path\<lparr>parts := parts path @ [name]\<rparr>)
         (concat (map (\<lambda>e. filter (\<lambda>n. suffix e n) (scandir w (Path_str path))) E))"
  by (induction E) (auto simp: glob_star_def)

text \<open>
  Claim C7, as amended. For every existing directory \<open>D\<close> and every list \<open>E\<close> of extensions
  without pattern characters, \<open>find_text_files\<close> returns the paths of exactly the regular
  files directly inside \<open>D\<close> whose names end with one of the extensions in \<open>E\<close>, sorted
  ascending by path string. The result has no duplicate entries when the directory lists
  each name once and no name ends with more than one entry of \<open>E\<close>.
\<close>

theorem find_text_files_sorted_matches:
  assumes dir: "files w (Path_str (Path_init D)) = Some Directory"
      and plain: "\<forall>e \<in> set E. plain_ext e"
  shows "\<exists>r. find_text_files h w D (Some E) = Inr r
           \<and> sorted r
           \<and> set r = {Path_str ((Path_init D)\<lparr>parts := parts (Path_init D) @ [name]\<rparr>) | name.
                        name \<in> set (scandir w (Path_str (Path_init D)))
                        \<and> (\<exists>e \<in> set E. suffix e name)
                        \<and> is_file w ((Path_init D)\<lparr>parts := parts (Path_init D) @ [name]\<rparr>)}
           \<and> (distinct (scandir w (Path_str (Path_init D)))
                \<and> (\<forall>name \<in> set (scandir w (Path_str (Path_init D))).
                      length (filter (\<lambda>e. suffix e name) E) \<le> 1)
                \<longrightarrow> distinct r)"
proof -
  let ?path = "Path_init D"
  let ?names = "scandir w (Path_str ?path)"
  let ?child = "\<lambda>name. ?path\<lparr>parts := parts ?path @ [name]\<rparr>"
  let ?L = "concat (map (\<lambda>e. filter (\<lambda>n. suffix e n) ?names) E)"
  let ?r = "sort (map Path_str (filter (is_file w) (map ?child ?L)))"
  have res: "find_text_files h w D (Some E) = Inr ?r"
    using dir by (simp add: find_text_files_def Let_def glob_concat)
  have srt: "sorted ?r" by simp
  have st: "set ?r = {Path_str (?child name) | name.
                        name \<in> set ?names \<and> (\<exists>e \<in> set E. suffix e name) \<and> is_file w (?child name)}"
    by auto
  have dst: "distinct ?r"
    if "distinct ?names" and "\<forall>name \<in> set ?names. length (filter (\<lambda>e. suffix e name) E) \<le> 1"
  proof -
    from that have "distinct ?L" by (rule distinct_matches)
    then have "distinct (map (\<lambda>n. Path_str (?child n)) (filter (\<lambda>n. is_file w (?child n)) ?L))"
      by (auto simp: distinct_map inj_on_def dest: Path_str_child_inj)
    then show ?thesis
      by (simp add: filter_map comp_def)
  qed
  from res srt st dst show ?thesis by blast
qed

theorem find_text_files_sorted_matches_witness:
  "files w_data (Path_str (Path_init ''data'')) = Some Directory
   \<and> plain_ext ''.txt''
   \<and> find_text_files cli_file_handler w_data ''data'' (Some [''.txt''])
       = Inr [''data/a.txt'', ''data/b.txt'']
   \<and> sorted [''data/a.txt'', ''data/b.txt'']
   \<and> distinct [''data/a.txt'', ''data/b.txt'']"
proof -
  have dir: "files w_data (Path_str (Path_init ''data'')) = Some Directory"
    by code_simp
  have plain: "\<forall>e \<in> set [''.txt'']. plain_ext e"
    by code_simp
  have res: "find_text_files cli_file_handler w_data ''data'' (Some [''.txt''])
               = Inr [''data/a.txt'', ''data/b.txt'']"
    by code_simp
  have once: "distinct (scandir w_data (Path_str (Path_init ''data'')))
              \<and> (\<forall>name \<in> set (scandir w_data (Path_str (Path_init ''data''))).
                    length (filter (\<lambda>e. suffix e name) [''.txt'']) \<le> 1)"
    by code_simp
  from find_text_files_sorted_matches [OF dir plain, of cli_file_handler] res once
  have "sorted [''data/a.txt'', ''data/b.txt''] \<and> distinct [''data/a.txt'', ''data/b.txt'']"
    by auto
  with dir plain res show ?thesis by simp
qed

text \<open>
  Claim C7 as stated fails for a list with two entries that the same name ends with: every
  matching file is returned twice.
\<close>

theorem overlapping_extensions_counterexample:
  "find_text_files cli_file_handler w_data ''data'' (Some [''.txt'', ''txt''])
     = Inr [''data/a.txt'', ''data/a.txt'', ''data/b.txt'', ''data/b.txt'']"
  by code_simp

end
